theory Spec2Isabelle
  imports Main "HOL-Library.AList"
begin

section \<open>Values\<close>

text \<open>
  The engine never looks inside a message or a sink: a \<^verbatim>\<open>*Message\<close> and a
  \<^verbatim>\<open>MessageWriter\<close> are identities.  A \<^verbatim>\<open>subscriber\<close> is a channel
  (\<^verbatim>\<open>chan<- error\<close>), used both as a map key and as the place the loop writes to; it is
  an address into the store of channels.  A Go \<^verbatim>\<open>error\<close> is an \<open>err option\<close>,
  \<open>None\<close> being \<^verbatim>\<open>nil\<close>.
\<close>

type_synonym message = nat
type_synonym client = nat
type_synonym subscriber = nat
type_synonym topic = string

datatype err = ErrProviderClosed | ErrNoTopic | OtherErr string

record Subscription =
  Client :: client
  LastEventID :: string
  Topics :: "topic list"

text \<open>\<^verbatim>\<open>subscription struct { done subscriber; Subscription }\<close>\<close>

record subscription =
  done_chan :: subscriber
  request :: Subscription

section \<open>Channels\<close>

text \<open>
  A subscriber channel is made by \<^verbatim>\<open>make(chan error, 1)\<close> in \<^verbatim>\<open>Subscribe\<close>, the
  only place that makes one: it buffers one value.  Sending on a closed channel and closing
  a closed channel panic; sending on a full channel nobody reads blocks.  Both sends of the
  loop are guarded by \<^verbatim>\<open>err != nil\<close>, so the buffer holds errors that are not nil.
\<close>

record chan =
  buf :: "err list"
  closed :: bool

datatype 'a chan_op = Ok 'a | Panic | Block

definition chan_send :: "err \<Rightarrow> chan \<Rightarrow> chan chan_op" where
  "chan_send v c =
     (if closed c then Panic
      else if length (buf c) < 1 then Ok (c\<lparr>buf := buf c @ [v]\<rparr>)
      else Block)"

definition chan_close :: "chan \<Rightarrow> chan chan_op" where
  "chan_close c = (if closed c then Panic else Ok (c\<lparr>closed := True\<rparr>))"

text \<open>A receive takes the buffered value first; on a closed and empty channel it yields
  the zero value, \<^verbatim>\<open>nil\<close>; otherwise it is not ready.\<close>

definition chan_recv :: "chan \<Rightarrow> (err option \<times> chan) option" where
  "chan_recv c =
     (case buf c of
        v # vs \<Rightarrow> Some (Some v, c\<lparr>buf := vs\<rparr>)
      | [] \<Rightarrow> if closed c then Some (None, c) else None)"

section \<open>The collaborators of the loop\<close>

text \<open>
  Every call the loop makes to the replay provider or to a sink, and every operation on a
  subscriber channel, is written to a trace, oldest first.  The trace is not a field of
  \<^verbatim>\<open>Joe\<close>; it is what an observer of the loop sees.  A send and a flush carry the
  subscriber on whose behalf the loop makes them.
\<close>

datatype call =
    CallPut message "topic list" "message option"
  | CallReplay Subscription "err option option"
  | CallGC "err option"
  | CallSend subscriber client message "err option"
  | CallFlush subscriber client "err option"
  | ChanSend subscriber err
  | ChanClose subscriber
  | StopGC
  | CloseClosed

text \<open>
  The replay provider and the sinks are interfaces: what they return is a parameter, and may
  depend on everything that happened before (the trace).  \<^verbatim>\<open>Put\<close> and \<^verbatim>\<open>Replay\<close>
  may panic, as the interface's documentation says of \<^verbatim>\<open>Put\<close>: \<open>None\<close>.  \<open>GC\<close> is
  \<open>None\<close> for a provider that is not a \<^verbatim>\<open>ReplayProviderWithGC\<close>.
\<close>

record world =
  Put :: "call list \<Rightarrow> message \<Rightarrow> topic list \<Rightarrow> message option"
  Replay :: "call list \<Rightarrow> Subscription \<Rightarrow> err option option"
  GC :: "(call list \<Rightarrow> err option) option"
  Send :: "call list \<Rightarrow> client \<Rightarrow> message \<Rightarrow> err option"
  Flush :: "call list \<Rightarrow> client \<Rightarrow> err option"

section \<open>The ticker\<close>

text \<open>
  \<^verbatim>\<open>ticker\<close> returns a nil channel and a stop function that does nothing when the
  duration is not positive, and the channel and \<^verbatim>\<open>Stop\<close> of a new
  \<^verbatim>\<open>time.Ticker\<close> otherwise.  The pair is one value here: no ticker, or a ticker that
  runs or is stopped.  \<^verbatim>\<open>Stop\<close> keeps the ticker from sending more ticks.  It does not
  empty the ticker's channel, which holds one tick: a tick sent while the loop was busy is
  still there after \<^verbatim>\<open>Stop\<close>, and the loop receives it.
\<close>

datatype gc_ticker = NoTicker | Ticker bool

definition ticker :: "int \<Rightarrow> gc_ticker" where
  "ticker duration = (if duration \<le> 0 then NoTicker else Ticker True)"

fun stop :: "gc_ticker \<Rightarrow> gc_ticker" where
  "stop NoTicker = NoTicker"
| "stop (Ticker _) = Ticker False"

fun ticks :: "gc_ticker \<Rightarrow> bool" where
  "ticks NoTicker = False"
| "ticks (Ticker running) = running"

section \<open>Joe\<close>

text \<open>
  The fields of \<^verbatim>\<open>Joe\<close> and what \<^verbatim>\<open>init\<close> hands to \<^verbatim>\<open>start\<close>: the ticker
  \<open>gc\<close>, and the provider, which is the \<open>world\<close> every function below takes.  \<open>loop\<close>
  says where the goroutine of \<^verbatim>\<open>start\<close> is, \<open>made\<close> counts the subscriber channels made
  so far (the next address \<^verbatim>\<open>make\<close> returns).  The maps are
  association lists, whose order stands for the order in which \<^verbatim>\<open>range\<close> visits a Go
  map; the theorems hold for every order.  The channels \<^verbatim>\<open>done\<close> and \<^verbatim>\<open>closed\<close>
  are only ever closed: a flag each.  The request channels are not buffered, so they hold
  nothing between two steps of the loop.
\<close>

datatype loop_state = NotStarted | Running | Exited | Crashed | Stuck

record joe =
  topics :: "(topic \<times> (subscriber \<times> client) list) list"
  chans :: "subscriber \<Rightarrow> chan"
  done_closed :: bool
  closed_closed :: bool
  gc :: gc_ticker
  ReplayGCInterval :: int
  initDone :: bool
  loop :: loop_state
  made :: nat
  trace :: "call list"

text \<open>How a statement of the loop ends: it goes on, the loop returns, it panics, or it
  blocks for ever.\<close>

datatype 'a outcome = Next 'a | Return joe | Panics joe | Blocks joe

definition and_then :: "'a outcome \<Rightarrow> ('a \<Rightarrow> 'b outcome) \<Rightarrow> 'b outcome" where
  "and_then r f =
     (case r of Next x \<Rightarrow> f x | Return j \<Rightarrow> Return j | Panics j \<Rightarrow> Panics j
      | Blocks j \<Rightarrow> Blocks j)"

definition observe :: "call \<Rightarrow> joe \<Rightarrow> joe" where
  "observe c j = j\<lparr>trace := trace j @ [c]\<rparr>"

text \<open>\<^verbatim>\<open>j.topics[topic]\<close>: a missing key gives the nil map, which has no entries.\<close>

definition subscribers :: "joe \<Rightarrow> topic \<Rightarrow> (subscriber \<times> client) list" where
  "subscribers j t = (case map_of (topics j) t of None \<Rightarrow> [] | Some subs \<Rightarrow> subs)"

text \<open>\<^verbatim>\<open>topic\<close> adds an empty entry when the identifier has none.\<close>

definition topic :: "topic \<Rightarrow> joe \<Rightarrow> joe" where
  "topic identifier j =
     (if map_of (topics j) identifier = None
      then j\<lparr>topics := topics j @ [(identifier, [])]\<rparr> else j)"

text \<open>\<^verbatim>\<open>j.topic(topic)[sub.done] = sub.Client\<close>\<close>

definition register :: "subscriber \<Rightarrow> client \<Rightarrow> topic \<Rightarrow> joe \<Rightarrow> joe" where
  "register d c t j =
     (let j1 = topic t j
      in j1\<lparr>topics := AList.update t (AList.update d c (subscribers j1 t)) (topics j1)\<rparr>)"

definition close_chan :: "subscriber \<Rightarrow> joe \<Rightarrow> joe outcome" where
  "close_chan d j =
     (case chan_close (chans j d) of
        Ok c \<Rightarrow> Next (observe (ChanClose d) (j\<lparr>chans := (chans j)(d := c)\<rparr>))
      | Panic \<Rightarrow> Panics j
      | Block \<Rightarrow> Blocks j)"

definition send_chan :: "subscriber \<Rightarrow> err \<Rightarrow> joe \<Rightarrow> joe outcome" where
  "send_chan d e j =
     (case chan_send e (chans j d) of
        Ok c \<Rightarrow> Next (observe (ChanSend d e) (j\<lparr>chans := (chans j)(d := c)\<rparr>))
      | Panic \<Rightarrow> Panics j
      | Block \<Rightarrow> Blocks j)"

definition removeSubscriber :: "subscriber \<Rightarrow> joe \<Rightarrow> joe outcome" where
  "removeSubscriber sub j =
     close_chan sub (j\<lparr>topics := map (\<lambda>(t, subs). (t, AList.delete sub subs)) (topics j)\<rparr>)"

section \<open>The publish step\<close>

text \<open>\<^verbatim>\<open>err := c.Send(toDispatch); if err == nil { err = c.Flush() }\<close>\<close>

definition send_flush :: "world \<Rightarrow> subscriber \<Rightarrow> client \<Rightarrow> message \<Rightarrow> joe \<Rightarrow> err option \<times> joe" where
  "send_flush w d c m j =
     (let r = Send w (trace j) c m; j1 = observe (CallSend d c m r) j
      in case r of
           Some e \<Rightarrow> (Some e, j1)
         | None \<Rightarrow> (let r2 = Flush w (trace j1) c in (r2, observe (CallFlush d c r2) j1)))"

text \<open>
  The inner loop, \<^verbatim>\<open>for done, c := range j.topics[topic]\<close>, over the entries the map
  has when the loop starts.  The body deletes from the map only the key it is visiting, so
  the entries still to visit are those of the start.
\<close>

fun deliver ::
  "world \<Rightarrow> message \<Rightarrow> (subscriber \<times> client) list \<Rightarrow> subscriber set \<Rightarrow> joe
     \<Rightarrow> (subscriber set \<times> joe) outcome" where
  "deliver w m [] seen j = Next (seen, j)"
| "deliver w m ((d, c) # rest) seen j =
     (if d \<in> seen then deliver w m rest seen j
      else case send_flush w d c m j of
             (None, j1) \<Rightarrow> deliver w m rest (insert d seen) j1
           | (Some e, j1) \<Rightarrow>
               (case and_then (send_chan d e j1) (removeSubscriber d) of
                  Next j2 \<Rightarrow> deliver w m rest seen j2
                | Return j2 \<Rightarrow> Return j2
                | Panics j2 \<Rightarrow> Panics j2
                | Blocks j2 \<Rightarrow> Blocks j2))"

text \<open>The outer loop, \<^verbatim>\<open>for _, topic := range msg.topics\<close>.\<close>

fun dispatch ::
  "world \<Rightarrow> message \<Rightarrow> topic list \<Rightarrow> subscriber set \<Rightarrow> joe \<Rightarrow> (subscriber set \<times> joe) outcome" where
  "dispatch w m [] seen j = Next (seen, j)"
| "dispatch w m (t # ts) seen j =
     (case deliver w m (subscribers j t) seen j of
        Next (seen', j') \<Rightarrow> dispatch w m ts seen' j'
      | Return j' \<Rightarrow> Return j'
      | Panics j' \<Rightarrow> Panics j'
      | Blocks j' \<Rightarrow> Blocks j')"

definition publish :: "world \<Rightarrow> message \<Rightarrow> topic list \<Rightarrow> joe \<Rightarrow> joe outcome" where
  "publish w msg tps j =
     (case Put w (trace j) msg tps of
        None \<Rightarrow> Panics (observe (CallPut msg tps None) j)
      | Some toDispatch \<Rightarrow>
          and_then (dispatch w toDispatch tps {} (observe (CallPut msg tps (Some toDispatch)) j))
            (\<lambda>(seen, j'). Next j'))"

section \<open>The subscribe step\<close>

definition subscribe :: "world \<Rightarrow> subscription \<Rightarrow> joe \<Rightarrow> joe outcome" where
  "subscribe w sub j =
     (let r = Replay w (trace j) (request sub); j1 = observe (CallReplay (request sub) r) j
      in case r of
           None \<Rightarrow> Panics j1
         | Some (Some e) \<Rightarrow> and_then (send_chan (done_chan sub) e j1) (close_chan (done_chan sub))
         | Some None \<Rightarrow>
             Next (fold (register (done_chan sub) (Client (request sub))) (Topics (request sub)) j1))"

section \<open>The loop\<close>

datatype request =
    Message message "topic list"
  | Subscribe subscription
  | Unsubscribe subscriber
  | Tick
  | Done

text \<open>
  One iteration of \<^verbatim>\<open>for { select { ... } }\<close>, for the case that fired.  \<open>Tick\<close> is a
  tick received from \<^verbatim>\<open>gcSignal\<close>: the loop calls \<^verbatim>\<open>gcFn\<close> on every tick it receives,
  whatever the state of the ticker.  Calling a nil \<^verbatim>\<open>gcFn\<close> panics.
\<close>

fun step :: "world \<Rightarrow> request \<Rightarrow> joe \<Rightarrow> joe outcome" where
  "step w (Message msg tps) j = publish w msg tps j"
| "step w (Subscribe sub) j = subscribe w sub j"
| "step w (Unsubscribe sub) j = removeSubscriber sub j"
| "step w Tick j =
     (case GC w of
        None \<Rightarrow> Panics j
      | Some gcFn \<Rightarrow>
          (let r = gcFn (trace j); j1 = observe (CallGC r) j
           in if r \<noteq> None then Next (observe StopGC (j1\<lparr>gc := stop (gc j1)\<rparr>)) else Next j1))"
| "step w Done j = Return j"

fun run :: "world \<Rightarrow> request list \<Rightarrow> joe \<Rightarrow> joe outcome" where
  "run w [] j = Next j"
| "run w (r # rs) j = and_then (step w r j) (run w rs)"

section \<open>The deferred cleanup\<close>

fun close_each ::
  "(subscriber \<times> client) list \<Rightarrow> subscriber set \<Rightarrow> joe \<Rightarrow> (subscriber set \<times> joe) outcome" where
  "close_each [] seen j = Next (seen, j)"
| "close_each ((sub, c) # rest) seen j =
     (if sub \<in> seen then close_each rest seen j
      else case close_chan sub j of
             Next j' \<Rightarrow> close_each rest (insert sub seen) j'
           | Return j' \<Rightarrow> Return j'
           | Panics j' \<Rightarrow> Panics j'
           | Blocks j' \<Rightarrow> Blocks j')"

fun close_topics ::
  "(topic \<times> (subscriber \<times> client) list) list \<Rightarrow> subscriber set \<Rightarrow> joe
     \<Rightarrow> (subscriber set \<times> joe) outcome" where
  "close_topics [] seen j = Next (seen, j)"
| "close_topics ((t, subs) # rest) seen j =
     (case close_each subs seen j of
        Next (seen', j') \<Rightarrow> close_topics rest seen' j'
      | Return j' \<Rightarrow> Return j'
      | Panics j' \<Rightarrow> Panics j'
      | Blocks j' \<Rightarrow> Blocks j')"

definition closeSubscribers :: "joe \<Rightarrow> joe outcome" where
  "closeSubscribers j = and_then (close_topics (topics j) {} j) (\<lambda>(seen, j'). Next j')"

text \<open>
  The three deferred calls of \<^verbatim>\<open>start\<close>, last deferred first:
  \<^verbatim>\<open>stopGCSignal()\<close>, \<^verbatim>\<open>j.closeSubscribers()\<close>, \<^verbatim>\<open>close(j.closed)\<close>.  A deferred call
  that panics does not keep the later ones from running.  The flag says whether the loop is
  unwinding from a panic.
\<close>

definition state_of :: "joe outcome \<Rightarrow> joe" where
  "state_of r = (case r of Next j \<Rightarrow> j | Return j \<Rightarrow> j | Panics j \<Rightarrow> j | Blocks j \<Rightarrow> j)"

definition went_on :: "joe outcome \<Rightarrow> bool" where
  "went_on r = (case r of Next j \<Rightarrow> True | _ \<Rightarrow> False)"

definition deferred :: "bool \<Rightarrow> joe \<Rightarrow> joe" where
  "deferred panicking j =
     (let j1 = observe StopGC (j\<lparr>gc := stop (gc j)\<rparr>);
          r2 = closeSubscribers j1;
          j2 = state_of r2;
          r3 = (if closed_closed j2 then Panics j2
                else Next (observe CloseClosed (j2\<lparr>closed_closed := True\<rparr>)));
          j3 = state_of r3
      in j3\<lparr>loop := (if panicking \<or> \<not> went_on r2 \<or> \<not> went_on r3 then Crashed else Exited)\<rparr>)"

text \<open>
  \<^verbatim>\<open>start\<close>, driven by the cases its \<^verbatim>\<open>select\<close> takes one after the other.  When the
  list ends the loop is waiting in \<^verbatim>\<open>select\<close>.
\<close>

definition start :: "world \<Rightarrow> request list \<Rightarrow> joe \<Rightarrow> joe" where
  "start w rs j =
     (case run w rs j of
        Next j' \<Rightarrow> j'
      | Return j' \<Rightarrow> deferred False j'
      | Panics j' \<Rightarrow> deferred True j'
      | Blocks j' \<Rightarrow> j'\<lparr>loop := Stuck\<rparr>)"

section \<open>The facade\<close>

text \<open>
  \<^verbatim>\<open>init\<close> runs its body once.  The replay provider it hands to \<^verbatim>\<open>start\<close> is the
  \<open>world\<close>, which stands for \<^verbatim>\<open>replay\<close> after the choice between the configured
  provider and \<^verbatim>\<open>noopReplayProvider{}\<close>; the ticker is made with the configured interval
  when the provider has a \<^verbatim>\<open>GC\<close> method and with 0 otherwise; the goroutine of
  \<^verbatim>\<open>start\<close> begins.
\<close>

definition init :: "world \<Rightarrow> joe \<Rightarrow> joe" where
  "init w j =
     (if initDone j then j
      else j\<lparr>topics := [], done_closed := False, closed_closed := False,
             gc := ticker (if GC w \<noteq> None then ReplayGCInterval j else 0),
             initDone := True, loop := Running\<rparr>)"

text \<open>A call of the facade has returned a value, or is blocked in a \<^verbatim>\<open>select\<close>.\<close>

datatype 'a returned = Returns 'a | Waits

text \<open>
  The loop can receive a request when it is in its \<^verbatim>\<open>select\<close>; it then handles it before
  anything else.  When two cases of a \<^verbatim>\<open>select\<close> are ready Go takes either: the flag
  \<open>pick\<close> is that choice.
\<close>

definition handle :: "world \<Rightarrow> request \<Rightarrow> joe \<Rightarrow> joe" where
  "handle w r j = (if loop j = Running then start w [r] j else j)"

definition Publish :: "world \<Rightarrow> bool \<Rightarrow> message \<Rightarrow> topic list \<Rightarrow> joe \<Rightarrow> err option returned \<times> joe" where
  "Publish w pick msg tps j =
     (if length tps = 0 then (Returns (Some ErrNoTopic), j)
      else let j1 = init w j
           in if loop j1 = Running \<and> \<not> (done_closed j1 \<and> pick)
              then (Returns None, handle w (Message msg tps) j1)
              else if done_closed j1 then (Returns (Some ErrProviderClosed), j1)
              else (Waits, j1))"

text \<open>
  \<^verbatim>\<open>Shutdown\<close>: closing \<^verbatim>\<open>j.done\<close> a second time panics, and the deferred
  \<^verbatim>\<open>recover\<close> turns the panic into \<^verbatim>\<open>ErrProviderClosed\<close>.  Otherwise the loop, if it
  is in its \<^verbatim>\<open>select\<close>, takes the case of \<^verbatim>\<open>j.done\<close>, and the call waits for
  \<^verbatim>\<open>j.closed\<close> or for the context.  \<open>ctx\<close> is \<^verbatim>\<open>ctx.Err()\<close> when the context is
  done, \<open>None\<close> when it is not.
\<close>

definition Shutdown :: "world \<Rightarrow> bool \<Rightarrow> err option \<Rightarrow> joe \<Rightarrow> err option returned \<times> joe" where
  "Shutdown w pick ctx j =
     (let j1 = init w j
      in if done_closed j1 then (Returns (Some ErrProviderClosed), j1)
         else let j2 = handle w Done (j1\<lparr>done_closed := True\<rparr>)
              in if closed_closed j2 \<and> \<not> (ctx \<noteq> None \<and> pick) then (Returns None, j2)
                 else if ctx \<noteq> None then (Returns ctx, j2)
                 else (Waits, j2))"

text \<open>
  \<^verbatim>\<open>Subscribe\<close> blocks in three \<^verbatim>\<open>select\<close>s one after the other; the loop and the
  other callers run in between.  A call is at one of them, or has returned.
\<close>

datatype position = Submitting | Waiting | Cancelling | Returned "err option"

record subscribing =
  at :: position
  chan_of :: subscriber
  asked :: Subscription

text \<open>\<^verbatim>\<open>j.init(); done := make(chan error, 1)\<close>\<close>

definition Subscribe_call :: "world \<Rightarrow> Subscription \<Rightarrow> joe \<Rightarrow> subscribing \<times> joe" where
  "Subscribe_call w sub j =
     (let j1 = init w j; d = made j1
      in (\<lparr>at = Submitting, chan_of = d, asked = sub\<rparr>,
          j1\<lparr>made := d + 1, chans := (chans j1)(d := \<lparr>buf = [], closed = False\<rparr>)\<rparr>))"

text \<open>One move of a call of \<^verbatim>\<open>Subscribe\<close>; \<open>ctx_done\<close> says whether \<^verbatim>\<open>ctx.Done()\<close>
  is ready.\<close>

definition Subscribe_move :: "world \<Rightarrow> bool \<Rightarrow> bool \<Rightarrow> subscribing \<Rightarrow> joe \<Rightarrow> subscribing \<times> joe" where
  "Subscribe_move w pick ctx_done s j =
     (case at s of
        Submitting \<Rightarrow>
          if done_closed j \<and> (pick \<or> loop j \<noteq> Running)
          then (s\<lparr>at := Returned (Some ErrProviderClosed)\<rparr>, j)
          else if loop j = Running
          then (s\<lparr>at := Waiting\<rparr>, handle w (Subscribe \<lparr>done_chan = chan_of s, request = asked s\<rparr>) j)
          else (s, j)
      | Waiting \<Rightarrow>
          (case chan_recv (chans j (chan_of s)) of
             Some (e, c) \<Rightarrow>
               if ctx_done \<and> pick then (s\<lparr>at := Cancelling\<rparr>, j)
               else (s\<lparr>at := Returned e\<rparr>, j\<lparr>chans := (chans j)(chan_of s := c)\<rparr>)
           | None \<Rightarrow> if ctx_done then (s\<lparr>at := Cancelling\<rparr>, j) else (s, j))
      | Cancelling \<Rightarrow>
          (case chan_recv (chans j (chan_of s)) of
             Some (e, c) \<Rightarrow>
               if loop j = Running \<and> pick
               then (s\<lparr>at := Returned None\<rparr>, handle w (Unsubscribe (chan_of s)) j)
               else (s\<lparr>at := Returned e\<rparr>, j\<lparr>chans := (chans j)(chan_of s := c)\<rparr>)
           | None \<Rightarrow>
               if loop j = Running
               then (s\<lparr>at := Returned None\<rparr>, handle w (Unsubscribe (chan_of s)) j)
               else (s, j))
      | Returned e \<Rightarrow> (s, j))"

section \<open>The no-op replay provider\<close>

text \<open>
  \<^verbatim>\<open>func (n noopReplayProvider) Put(m *Message) *Message    { return m }\<close>

  \<^verbatim>\<open>func (n noopReplayProvider) Replay(_ Subscription) bool { return true }\<close>
\<close>

definition noopReplayProvider_Put :: "message \<Rightarrow> message" where
  "noopReplayProvider_Put m = m"

definition noopReplayProvider_Replay :: "Subscription \<Rightarrow> bool" where
  "noopReplayProvider_Replay sub = True"

section \<open>Notions the theorems use\<close>

text \<open>The subscriber handles in the topic table, and the topics that have an entry.\<close>

definition handles :: "joe \<Rightarrow> subscriber set" where
  "handles j = (\<Union>(t, subs) \<in> set (topics j). fst ` set subs)"

definition entries :: "joe \<Rightarrow> topic set" where
  "entries j = fst ` set (topics j)"

text \<open>
  A channel as \<^verbatim>\<open>make\<close> returns it.  A state is well formed when every map of
  subscribers has each key once, as a Go map has, and every handle in the table is a channel
  that is open and empty.
\<close>

definition fresh :: "chan \<Rightarrow> bool" where
  "fresh c = (buf c = [] \<and> \<not> closed c)"

definition wf :: "joe \<Rightarrow> bool" where
  "wf j = ((\<forall>(t, subs) \<in> set (topics j). distinct (map fst subs)) \<and>
           (\<forall>d \<in> handles j. fresh (chans j d)))"

text \<open>What a step added to the trace.\<close>

definition since :: "joe \<Rightarrow> joe \<Rightarrow> call list" where
  "since j j' = drop (length (trace j)) (trace j')"

fun is_send :: "subscriber \<Rightarrow> call \<Rightarrow> bool" where
  "is_send d (CallSend d' c m r) = (d' = d)"
| "is_send d _ = False"

fun is_close :: "subscriber \<Rightarrow> call \<Rightarrow> bool" where
  "is_close d (ChanClose d') = (d' = d)"
| "is_close d _ = False"

fun is_gc :: "call \<Rightarrow> bool" where
  "is_gc (CallGC r) = True"
| "is_gc _ = False"

fun is_put :: "call \<Rightarrow> bool" where
  "is_put (CallPut m tps r) = True"
| "is_put _ = False"

text \<open>The subscriber and the error of a send or a flush that failed.\<close>

fun failure :: "call \<Rightarrow> (subscriber \<times> err) option" where
  "failure (CallSend d c m (Some e)) = Some (d, e)"
| "failure (CallFlush d c (Some e)) = Some (d, e)"
| "failure _ = None"

text \<open>The state after \<^verbatim>\<open>done <- err; j.removeSubscriber(done)\<close> on a fresh channel.\<close>

definition dropped :: "subscriber \<Rightarrow> err \<Rightarrow> joe \<Rightarrow> joe" where
  "dropped d e j =
     j\<lparr>topics := map (\<lambda>(t, subs). (t, AList.delete d subs)) (topics j),
       chans := (chans j)(d := \<lparr>buf = [e], closed = True\<rparr>),
       trace := trace j @ [ChanSend d e, ChanClose d]\<rparr>"

text \<open>An entry of the first state is still there in the second, unless its handle has left
  the table.\<close>

definition kept :: "joe \<Rightarrow> joe \<Rightarrow> bool" where
  "kept j j' =
     (\<forall>t p. p \<in> set (subscribers j t) \<longrightarrow> p \<in> set (subscribers j' t) \<or> fst p \<notin> handles j')"

text \<open>
  During one publish step, for one handle \<open>d\<close>: either nothing was sent to it yet and it is
  still in the table, or it is marked as seen or has left the table and exactly one send was
  made for it, of the message to dispatch, to a sink it was registered with.
\<close>

definition once :: "joe \<Rightarrow> topic list \<Rightarrow> message \<Rightarrow> subscriber \<Rightarrow> subscriber set \<Rightarrow> joe \<Rightarrow> bool" where
  "once j0 tps m d seen j =
     (length (trace j0) \<le> length (trace j) \<and>
      (\<forall>t. set (subscribers j t) \<subseteq> set (subscribers j0 t)) \<and>
      (filter (is_send d) (since j0 j) = [] \<and> d \<notin> seen \<and> d \<in> handles j \<or>
       (d \<in> seen \<or> d \<notin> handles j) \<and>
       (\<exists>c r t. t \<in> set tps \<and> (d, c) \<in> set (subscribers j0 t) \<and>
          filter (is_send d) (since j0 j) = [CallSend d c m r])))"

text \<open>
  During one publish step: every send or flush of the step that failed left its handle out
  of the table, with the error in the handle's channel and the channel closed.
\<close>

definition failing :: "joe \<Rightarrow> subscriber set \<Rightarrow> joe \<Rightarrow> bool" where
  "failing j0 seen j =
     (length (trace j0) \<le> length (trace j) \<and>
      (\<forall>x \<in> set (since j0 j). \<forall>d e. failure x = Some (d, e) \<longrightarrow>
         chans j d = \<lparr>buf = [e], closed = True\<rparr> \<and> d \<notin> handles j))"

text \<open>The state a loop over subscribers ends in, however it ends.\<close>

definition final :: "(subscriber set \<times> joe) outcome \<Rightarrow> joe" where
  "final r = (case r of Next (seen, j) \<Rightarrow> j | Return j \<Rightarrow> j | Panics j \<Rightarrow> j | Blocks j \<Rightarrow> j)"

text \<open>
  What publishing, subscribing and unsubscribing leave alone: they take no topic entry
  away, do not touch the ticker or the two signal channels, and call neither \<^verbatim>\<open>GC\<close> nor
  the ticker's stop function.
\<close>

definition frame :: "joe \<Rightarrow> joe \<Rightarrow> bool" where
  "frame j j' =
     (entries j \<subseteq> entries j' \<and> gc j' = gc j \<and> done_closed j' = done_closed j \<and>
      closed_closed j' = closed_closed j \<and> initDone j' = initDone j \<and> loop j' = loop j \<and>
      made j' = made j \<and> ReplayGCInterval j' = ReplayGCInterval j \<and>
      (\<exists>evs. trace j' = trace j @ evs \<and>
         (\<forall>x \<in> set evs. \<not> is_gc x \<and> x \<noteq> StopGC \<and> x \<noteq> CloseClosed)))"

text \<open>
  The handles \<^verbatim>\<open>closeSubscribers\<close> closes, in the order it closes them: the keys it meets
  that it has not seen yet.
\<close>

fun pending :: "(subscriber \<times> client) list \<Rightarrow> subscriber set \<Rightarrow> subscriber list" where
  "pending [] seen = []"
| "pending ((d, c) # xs) seen =
     (if d \<in> seen then pending xs seen else d # pending xs (insert d seen))"

fun pending_topics ::
  "(topic \<times> (subscriber \<times> client) list) list \<Rightarrow> subscriber set \<Rightarrow> subscriber list" where
  "pending_topics [] seen = []"
| "pending_topics ((t, subs) # al) seen =
     pending subs seen @ pending_topics al (seen \<union> fst ` set subs)"

text \<open>
  A request to subscribe as \<^verbatim>\<open>Subscribe\<close> sends it carries a channel just made: open,
  empty, and not in the table.  A run is admissible when each of its requests is, in the
  state the loop is in when it takes it.
\<close>

fun admissible :: "request \<Rightarrow> joe \<Rightarrow> bool" where
  "admissible (Subscribe sub) j = (fresh (chans j (done_chan sub)) \<and> done_chan sub \<notin> handles j)"
| "admissible r j = True"

fun admissible_run :: "world \<Rightarrow> request list \<Rightarrow> joe \<Rightarrow> bool" where
  "admissible_run w [] j = True"
| "admissible_run w (r # rs) j =
     (admissible r j \<and> (case step w r j of Next j1 \<Rightarrow> admissible_run w rs j1 | _ \<Rightarrow> True))"

section \<open>States and worlds to run the definitions on\<close>

text \<open>The zero value \<^verbatim>\<open>&Joe{}\<close> with a GC interval, before any call.\<close>

definition joe_new :: joe where
  "joe_new = \<lparr>topics = [], chans = (\<lambda>d. \<lparr>buf = [], closed = False\<rparr>),
              done_closed = False, closed_closed = False, gc = NoTicker,
              ReplayGCInterval = 5, initDone = False, loop = NotStarted, made = 0, trace = []\<rparr>"

text \<open>
  A running provider: topics \<open>a\<close> and \<open>b\<close> both have subscriber 1 (sink 10) and subscriber 2
  (sink 20).  In \<open>world0\<close> the replay provider returns another message than it is given,
  sink 20 fails on \<^verbatim>\<open>Send\<close>, and \<^verbatim>\<open>GC\<close> fails.
\<close>

definition joe0 :: joe where
  "joe0 = \<lparr>topics = [(''a'', [(1, 10), (2, 20)]), (''b'', [(2, 20), (1, 10)])],
           chans = (\<lambda>d. \<lparr>buf = [], closed = False\<rparr>),
           done_closed = False, closed_closed = False, gc = Ticker True,
           ReplayGCInterval = 5, initDone = True, loop = Running, made = 3, trace = []\<rparr>"

definition world0 :: world where
  "world0 = \<lparr>Put = (\<lambda>tr m tps. Some (m + 1)),
             Replay = (\<lambda>tr sub. Some None),
             GC = Some (\<lambda>tr. Some (OtherErr ''gc'')),
             Send = (\<lambda>tr c m. if c = 20 then Some (OtherErr ''broken pipe'') else None),
             Flush = (\<lambda>tr c. None)\<rparr>"

text \<open>A world whose \<^verbatim>\<open>Replay\<close> fails.\<close>

definition world1 :: world where
  "world1 = world0\<lparr>Replay := (\<lambda>tr sub. Some (Some (OtherErr ''replay'')))\<rparr>"

text \<open>A world whose replay provider panics in \<^verbatim>\<open>Put\<close>.\<close>

definition world2 :: world where
  "world2 = world0\<lparr>Put := (\<lambda>tr m tps. None)\<rparr>"

text \<open>A request to subscribe sink 30 to \<open>b\<close> and to a new topic \<open>c\<close>, on channel 3.\<close>

definition sub0 :: subscription where
  "sub0 = \<lparr>done_chan = 3, request = \<lparr>Client = 30, LastEventID = ''7'', Topics = [''b'', ''c'']\<rparr>\<rparr>"

text \<open>The call of \<^verbatim>\<open>Subscribe\<close> of subscriber 2, in its second \<^verbatim>\<open>select\<close>.\<close>

definition waiting2 :: subscribing where
  "waiting2 = \<lparr>at = Waiting, chan_of = 2,
               asked = \<lparr>Client = 20, LastEventID = [], Topics = [''a'', ''b'']\<rparr>\<rparr>"

section \<open>Steps of the loop on a well-formed state\<close>

lemma observe_simps [simp]:
  "topics (observe c j) = topics j" "chans (observe c j) = chans j"
  "trace (observe c j) = trace j @ [c]" "gc (observe c j) = gc j"
  "closed_closed (observe c j) = closed_closed j" "done_closed (observe c j) = done_closed j"
  "loop (observe c j) = loop j" "initDone (observe c j) = initDone j" "made (observe c j) = made j"
  "ReplayGCInterval (observe c j) = ReplayGCInterval j"
  by (simp_all add: observe_def)

lemma handles_observe [simp]: "handles (observe c j) = handles j"
  by (simp add: handles_def)

lemma subscribers_observe [simp]: "subscribers (observe c j) = subscribers j"
  by (simp add: subscribers_def fun_eq_iff)

lemma send_flush_cases:
  obtains (ok) "send_flush w d c m j = (None, j\<lparr>trace := trace j @ [CallSend d c m None, CallFlush d c None]\<rparr>)"
  | (bad) e evs where "send_flush w d c m j = (Some e, j\<lparr>trace := trace j @ evs\<rparr>)"
      "evs = [CallSend d c m (Some e)] \<or> evs = [CallSend d c m None, CallFlush d c (Some e)]"
  by (cases "Send w (trace j) c m"; cases "Flush w (trace j @ [CallSend d c m None]) c")
     (auto simp: send_flush_def Let_def observe_def)

lemma send_chan_fresh:
  assumes "fresh (chans j d)"
  shows "send_chan d e j = Next (observe (ChanSend d e) (j\<lparr>chans := (chans j)(d := \<lparr>buf = [e], closed = False\<rparr>)\<rparr>))"
proof -
  have eq: "(chans j d)\<lparr>buf := [e]\<rparr> = \<lparr>buf = [e], closed = False\<rparr>"
    using assms by (cases "chans j d") (simp add: fresh_def)
  show ?thesis
    using assms by (simp add: send_chan_def chan_send_def fresh_def eq)
qed

lemma removeSubscriber_open:
  assumes "\<not> closed (chans j d)"
  shows "removeSubscriber d j = Next (observe (ChanClose d)
     (j\<lparr>topics := map (\<lambda>(t, subs). (t, AList.delete d subs)) (topics j),
        chans := (chans j)(d := (chans j d)\<lparr>closed := True\<rparr>)\<rparr>))"
  using assms by (simp add: removeSubscriber_def close_chan_def chan_close_def)

lemma fail_fresh:
  assumes "fresh (chans j d)"
  shows "and_then (send_chan d e j) (removeSubscriber d) = Next (dropped d e j)"
  using assms
  by (simp add: send_chan_fresh and_then_def removeSubscriber_open dropped_def observe_def)

lemma kept_refl: "kept j j"
  by (simp add: kept_def)

lemma kept_trans: "kept j j1 \<Longrightarrow> kept j1 j2 \<Longrightarrow> handles j2 \<subseteq> handles j1 \<Longrightarrow> kept j j2"
  unfolding kept_def by blast

lemma handles_iff:
  "d \<in> handles j \<longleftrightarrow> (\<exists>t subs c. (t, subs) \<in> set (topics j) \<and> (d, c) \<in> set subs)"
proof
  assume "d \<in> handles j"
  then obtain ts where "ts \<in> set (topics j)" "d \<in> fst ` set (snd ts)"
    unfolding handles_def by (auto simp: case_prod_beta)
  moreover obtain t subs where "ts = (t, subs)" by (cases ts)
  ultimately show "\<exists>t subs c. (t, subs) \<in> set (topics j) \<and> (d, c) \<in> set subs"
    by fastforce
next
  assume "\<exists>t subs c. (t, subs) \<in> set (topics j) \<and> (d, c) \<in> set subs"
  then obtain t subs c where "(t, subs) \<in> set (topics j)" "(d, c) \<in> set subs" by blast
  then have "(t, subs) \<in> set (topics j)" "d \<in> fst ` set (snd (t, subs))" by (auto simp: image_iff intro: bexI [of _ "(d, c)"])
  then show "d \<in> handles j" unfolding handles_def case_prod_beta by blast
qed

lemma subscribers_handles: "p \<in> set (subscribers j t) \<Longrightarrow> fst p \<in> handles j"
proof -
  assume p: "p \<in> set (subscribers j t)"
  then obtain subs where s: "map_of (topics j) t = Some subs" "p \<in> set subs"
    by (cases "map_of (topics j) t") (auto simp: subscribers_def)
  from s(1) have "(t, subs) \<in> set (topics j)" by (rule map_of_SomeD)
  moreover obtain d c where "p = (d, c)" by (cases p)
  ultimately have "\<exists>t subs c. (t, subs) \<in> set (topics j) \<and> (fst p, c) \<in> set subs"
    using s(2) by auto
  then show ?thesis unfolding handles_iff .
qed

lemma subscribers_trace [simp]: "subscribers (j\<lparr>trace := tr\<rparr>) = subscribers j"
  by (simp add: subscribers_def fun_eq_iff)

lemma handles_trace [simp]: "handles (j\<lparr>trace := tr\<rparr>) = handles j"
  by (simp add: handles_def)

lemma wf_trace [simp]: "wf (j\<lparr>trace := tr\<rparr>) = wf j"
  by (simp add: wf_def)

lemma subscribers_dropped: "subscribers (dropped d e j) t = AList.delete d (subscribers j t)"
  by (simp add: subscribers_def dropped_def map_of_map split: option.splits)

lemma topics_dropped:
  "(t, subs) \<in> set (topics (dropped d e j)) \<longleftrightarrow> (\<exists>s. (t, s) \<in> set (topics j) \<and> subs = AList.delete d s)"
  by (auto simp: dropped_def)

lemma handles_dropped: "handles (dropped d e j) = handles j - {d}"
proof -
  have "h \<in> handles (dropped d e j) \<longleftrightarrow> h \<in> handles j \<and> h \<noteq> d" for h
  proof -
    have "h \<in> handles (dropped d e j) \<longleftrightarrow> (\<exists>t s c. (t, s) \<in> set (topics j) \<and> (h, c) \<in> set (AList.delete d s))"
      unfolding handles_iff topics_dropped by blast
    also have "\<dots> \<longleftrightarrow> (\<exists>t s c. (t, s) \<in> set (topics j) \<and> (h, c) \<in> set s \<and> h \<noteq> d)"
      by (auto simp: AList.delete_eq)
    also have "\<dots> \<longleftrightarrow> h \<in> handles j \<and> h \<noteq> d"
      unfolding handles_iff by blast
    finally show ?thesis .
  qed
  then show ?thesis by blast
qed

lemma chans_dropped: "chans (dropped d e j) = (chans j)(d := \<lparr>buf = [e], closed = True\<rparr>)"
  by (simp add: dropped_def)

lemma trace_dropped: "trace (dropped d e j) = trace j @ [ChanSend d e, ChanClose d]"
  by (simp add: dropped_def)

lemma wf_dropped: "wf j \<Longrightarrow> wf (dropped d e j)"
  unfolding wf_def handles_dropped chans_dropped
  by (auto simp: dropped_def distinct_delete)

lemma kept_dropped: "kept j (dropped d e j)"
  unfolding kept_def handles_dropped subscribers_dropped
  by (auto simp: AList.delete_eq dest: subscribers_handles)

lemma subset_subscribers_dropped: "set xs \<subseteq> set (subscribers j t) \<Longrightarrow> d \<notin> fst ` set xs \<Longrightarrow> set xs \<subseteq> set (subscribers (dropped d e j) t)"
  unfolding subscribers_dropped AList.delete_eq by (auto simp: image_iff)

lemma deliver_rule:
  fixes P :: "subscriber set \<Rightarrow> joe \<Rightarrow> bool"
  assumes ok: "\<And>d c seen j. \<lbrakk>P seen j; wf j; d \<notin> seen; (d, c) \<in> set (subscribers j t)\<rbrakk>
      \<Longrightarrow> P (insert d seen) (j\<lparr>trace := trace j @ [CallSend d c m None, CallFlush d c None]\<rparr>)"
    and bad: "\<And>d c e evs seen j. \<lbrakk>P seen j; wf j; d \<notin> seen; (d, c) \<in> set (subscribers j t);
        evs = [CallSend d c m (Some e)] \<or> evs = [CallSend d c m None, CallFlush d c (Some e)]\<rbrakk>
      \<Longrightarrow> P seen (dropped d e (j\<lparr>trace := trace j @ evs\<rparr>))"
  shows "\<lbrakk>wf j; distinct (map fst xs); set xs \<subseteq> set (subscribers j t); P seen j\<rbrakk>
    \<Longrightarrow> \<exists>seen' j'. deliver w m xs seen j = Next (seen', j') \<and> wf j' \<and> P seen' j' \<and> seen \<subseteq> seen'
          \<and> handles j' \<subseteq> handles j \<and> kept j j'
          \<and> (\<forall>d \<in> fst ` set xs. d \<in> seen' \<or> d \<notin> handles j')"
proof (induction xs arbitrary: seen j)
  case Nil
  then show ?case by (simp add: kept_refl)
next
  case (Cons x xs)
  obtain d c where x: "x = (d, c)" by (cases x)
  from Cons.prems x have reg: "(d, c) \<in> set (subscribers j t)" and dxs: "d \<notin> fst ` set xs"
    and dist: "distinct (map fst xs)" and sub: "set xs \<subseteq> set (subscribers j t)"
    by auto
  show ?case
  proof (cases "d \<in> seen")
    case True
    from Cons.IH [OF Cons.prems(1) dist sub Cons.prems(4)]
    obtain seen' j' where r: "deliver w m xs seen j = Next (seen', j')" "wf j'" "P seen' j'"
      "seen \<subseteq> seen'" "handles j' \<subseteq> handles j" "kept j j'"
      "\<forall>d \<in> fst ` set xs. d \<in> seen' \<or> d \<notin> handles j'" by blast
    with True x show ?thesis by auto
  next
    case False
    show ?thesis
    proof (cases rule: send_flush_cases [of w d c m j])
      case ok
      let ?j1 = "j\<lparr>trace := trace j @ [CallSend d c m None, CallFlush d c None]\<rparr>"
      have P1: "P (insert d seen) ?j1"
        using assms(1) [OF Cons.prems(4) Cons.prems(1) False reg] .
      have "wf ?j1" "set xs \<subseteq> set (subscribers ?j1 t)" using Cons.prems(1) sub by simp_all
      from Cons.IH [OF this(1) dist this(2) P1]
      obtain seen' j' where r: "deliver w m xs (insert d seen) ?j1 = Next (seen', j')" "wf j'" "P seen' j'"
        "insert d seen \<subseteq> seen'" "handles j' \<subseteq> handles ?j1" "kept ?j1 j'"
        "\<forall>d \<in> fst ` set xs. d \<in> seen' \<or> d \<notin> handles j'" by blast
      from r(6) have "kept j j'" by (simp add: kept_def)
      with r ok False x show ?thesis by auto
    next
      case (bad e evs)
      let ?j1 = "j\<lparr>trace := trace j @ evs\<rparr>"
      let ?j2 = "dropped d e ?j1"
      have fr: "fresh (chans ?j1 d)"
        using Cons.prems(1) subscribers_handles [OF reg] by (simp add: wf_def)
      have P2: "P seen ?j2"
        using assms(2) [OF Cons.prems(4) Cons.prems(1) False reg bad(2)] .
      have wf2: "wf ?j2" using Cons.prems(1) by (simp add: wf_dropped)
      have sub2: "set xs \<subseteq> set (subscribers ?j2 t)"
        using subset_subscribers_dropped [OF _ dxs, of ?j1 t e] sub by simp
      from Cons.IH [OF wf2 dist sub2 P2]
      obtain seen' j' where r: "deliver w m xs seen ?j2 = Next (seen', j')" "wf j'" "P seen' j'"
        "seen \<subseteq> seen'" "handles j' \<subseteq> handles ?j2" "kept ?j2 j'"
        "\<forall>d \<in> fst ` set xs. d \<in> seen' \<or> d \<notin> handles j'" by blast
      have k: "kept j j'"
        using kept_trans [OF kept_dropped [of ?j1 d e] r(6) r(5)] by (simp add: kept_def)
      have h: "handles j' \<subseteq> handles j" "d \<notin> handles j'"
        using r(5) by (auto simp: handles_dropped)
      have "deliver w m (x # xs) seen j = deliver w m xs seen ?j2"
        using x False bad(1) fail_fresh [OF fr, of e] by simp
      with r k h x show ?thesis by auto
    qed
  qed
qed

lemma distinct_subscribers: "wf j \<Longrightarrow> distinct (map fst (subscribers j t))"
proof (cases "map_of (topics j) t")
  case None
  then show ?thesis by (simp add: subscribers_def)
next
  case (Some subs)
  assume "wf j"
  moreover from Some have "(t, subs) \<in> set (topics j)" by (rule map_of_SomeD)
  ultimately have "distinct (map fst subs)" unfolding wf_def by blast
  with Some show ?thesis by (simp add: subscribers_def)
qed

lemma dispatch_rule:
  fixes P :: "subscriber set \<Rightarrow> joe \<Rightarrow> bool"
  assumes ok: "\<And>d c t seen j. \<lbrakk>P seen j; wf j; d \<notin> seen; t \<in> T; (d, c) \<in> set (subscribers j t)\<rbrakk>
      \<Longrightarrow> P (insert d seen) (j\<lparr>trace := trace j @ [CallSend d c m None, CallFlush d c None]\<rparr>)"
    and bad: "\<And>d c t e evs seen j. \<lbrakk>P seen j; wf j; d \<notin> seen; t \<in> T; (d, c) \<in> set (subscribers j t);
        evs = [CallSend d c m (Some e)] \<or> evs = [CallSend d c m None, CallFlush d c (Some e)]\<rbrakk>
      \<Longrightarrow> P seen (dropped d e (j\<lparr>trace := trace j @ evs\<rparr>))"
  shows "\<lbrakk>wf j; set ts \<subseteq> T; P seen j\<rbrakk>
    \<Longrightarrow> \<exists>seen' j'. dispatch w m ts seen j = Next (seen', j') \<and> wf j' \<and> P seen' j' \<and> seen \<subseteq> seen'
          \<and> handles j' \<subseteq> handles j \<and> kept j j'
          \<and> (\<forall>t \<in> set ts. \<forall>d \<in> fst ` set (subscribers j t). d \<in> seen' \<or> d \<notin> handles j')"
proof (induction ts arbitrary: seen j)
  case Nil
  then show ?case by (simp add: kept_refl)
next
  case (Cons t ts)
  from Cons.prems have tT: "t \<in> T" and tsT: "set ts \<subseteq> T" by auto
  have "\<exists>seen1 j1. deliver w m (subscribers j t) seen j = Next (seen1, j1) \<and> wf j1 \<and> P seen1 j1 \<and> seen \<subseteq> seen1
          \<and> handles j1 \<subseteq> handles j \<and> kept j j1
          \<and> (\<forall>d \<in> fst ` set (subscribers j t). d \<in> seen1 \<or> d \<notin> handles j1)"
    by (rule deliver_rule [where P = P and t = t])
       (use Cons.prems tT in \<open>auto intro: ok bad distinct_subscribers\<close>)
  then obtain seen1 j1 where d1: "deliver w m (subscribers j t) seen j = Next (seen1, j1)" "wf j1" "P seen1 j1"
      "seen \<subseteq> seen1" "handles j1 \<subseteq> handles j" "kept j j1"
      "\<forall>d \<in> fst ` set (subscribers j t). d \<in> seen1 \<or> d \<notin> handles j1" by blast
  from Cons.IH [OF d1(2) tsT d1(3)]
  obtain seen' j' where r: "dispatch w m ts seen1 j1 = Next (seen', j')" "wf j'" "P seen' j'"
      "seen1 \<subseteq> seen'" "handles j' \<subseteq> handles j1" "kept j1 j'"
      "\<forall>t \<in> set ts. \<forall>d \<in> fst ` set (subscribers j1 t). d \<in> seen' \<or> d \<notin> handles j'" by blast
  have k: "kept j j'" using kept_trans [OF d1(6) r(6) r(5)] .
  have v: "d \<in> seen' \<or> d \<notin> handles j'" if "u \<in> set (t # ts)" "d \<in> fst ` set (subscribers j u)" for u d
  proof (cases "u = t")
    case True
    with that d1(7) have "d \<in> seen1 \<or> d \<notin> handles j1" by blast
    with r(4) r(5) show ?thesis by blast
  next
    case False
    with that have u: "u \<in> set ts" by simp
    from that(2) obtain c where "(d, c) \<in> set (subscribers j u)" by auto
    with d1(6) have "(d, c) \<in> set (subscribers j1 u) \<or> d \<notin> handles j1"
      unfolding kept_def by fastforce
    then show ?thesis
    proof
      assume "(d, c) \<in> set (subscribers j1 u)"
      then have "d \<in> fst ` set (subscribers j1 u)" by force
      with r(7) u show ?thesis by blast
    next
      assume "d \<notin> handles j1"
      with r(5) show ?thesis by blast
    qed
  qed
  have "dispatch w m (t # ts) seen j = Next (seen', j')" using d1(1) r(1) by simp
  moreover have "seen \<subseteq> seen'" "handles j' \<subseteq> handles j" using d1 r by auto
  ultimately show ?case using r(2,3) k v by blast
qed

lemma since_append:
  "length (trace j0) \<le> length (trace j) \<Longrightarrow> since j0 (j\<lparr>trace := trace j @ evs\<rparr>) = since j0 j @ evs"
  by (simp add: since_def)

lemma since_dropped:
  "length (trace j0) \<le> length (trace j) \<Longrightarrow> since j0 (dropped d e j) = since j0 j @ [ChanSend d e, ChanClose d]"
  by (simp add: since_def trace_dropped)

lemma once_ok:
  assumes "once j0 tps m d seen j" "wf j" "d' \<notin> seen" "t \<in> set tps" "(d', c) \<in> set (subscribers j t)"
  shows "once j0 tps m d (insert d' seen) (j\<lparr>trace := trace j @ [CallSend d' c m None, CallFlush d' c None]\<rparr>)"
proof -
  from assms(1) have len: "length (trace j0) \<le> length (trace j)"
    and subs: "\<forall>t. set (subscribers j t) \<subseteq> set (subscribers j0 t)" by (simp_all add: once_def)
  from assms(5) have h: "d' \<in> handles j" using subscribers_handles by fastforce
  from assms(5) subs have reg: "(d', c) \<in> set (subscribers j0 t)" by blast
  show ?thesis
  proof (cases "d' = d")
    case True
    with assms(1,3) h have "filter (is_send d) (since j0 j) = []" by (auto simp: once_def)
    with True len subs reg assms(4) show ?thesis
      unfolding once_def by (auto simp: since_append)
  next
    case False
    with assms(1) len subs show ?thesis
      unfolding once_def by (auto simp: since_append)
  qed
qed

lemma once_bad:
  assumes "once j0 tps m d seen j" "wf j" "d' \<notin> seen" "t \<in> set tps" "(d', c) \<in> set (subscribers j t)"
    "evs = [CallSend d' c m (Some e)] \<or> evs = [CallSend d' c m None, CallFlush d' c (Some e)]"
  shows "once j0 tps m d seen (dropped d' e (j\<lparr>trace := trace j @ evs\<rparr>))"
proof -
  let ?j1 = "j\<lparr>trace := trace j @ evs\<rparr>"
  from assms(1) have len: "length (trace j0) \<le> length (trace j)"
    and subs: "\<forall>t. set (subscribers j t) \<subseteq> set (subscribers j0 t)" by (simp_all add: once_def)
  from assms(5) have h: "d' \<in> handles j" using subscribers_handles by fastforce
  from assms(5) subs have reg: "(d', c) \<in> set (subscribers j0 t)" by blast
  have len1: "length (trace j0) \<le> length (trace ?j1)" using len by simp
  have s: "since j0 (dropped d' e ?j1) = since j0 j @ evs @ [ChanSend d' e, ChanClose d']"
    using since_dropped [OF len1] since_append [OF len] by simp
  have subs': "\<forall>t. set (subscribers (dropped d' e ?j1) t) \<subseteq> set (subscribers j0 t)"
    using subs by (auto simp: subscribers_dropped AList.delete_eq)
  have len': "length (trace j0) \<le> length (trace (dropped d' e ?j1))"
    using len by (simp add: trace_dropped)
  show ?thesis
  proof (cases "d' = d")
    case True
    with assms(1,3) h have "filter (is_send d) (since j0 j) = []" by (auto simp: once_def)
    with True reg assms(4,6) have
      "\<exists>c r t. t \<in> set tps \<and> (d, c) \<in> set (subscribers j0 t) \<and>
          filter (is_send d) (since j0 (dropped d' e ?j1)) = [CallSend d c m r]"
      unfolding s by auto
    with True len' subs' show ?thesis
      unfolding once_def handles_dropped by simp
  next
    case False
    with assms(6) have "filter (is_send d) (since j0 (dropped d' e ?j1)) = filter (is_send d) (since j0 j)"
      unfolding s by auto
    with False assms(1) len' subs' show ?thesis
      unfolding once_def handles_dropped by auto
  qed
qed

section \<open>Publishing\<close>

text \<open>
  C1.  A publish step on a well-formed state, when \<^verbatim>\<open>Put\<close> returns the message \<open>m\<close>: a
  handle \<open>d\<close> registered under every topic of a set \<open>T\<close> of the published topics, one topic or
  many, gets exactly one send during the step; the send carries \<open>m\<close> and goes to a sink \<open>d\<close>
  is registered with.  The step completes.
\<close>

theorem publish_once:
  assumes wf: "wf j" and put: "Put w (trace j) msg tps = Some m"
    and T: "T \<noteq> {}" "T \<subseteq> set tps" "\<forall>t \<in> T. d \<in> fst ` set (subscribers j t)"
  shows "\<exists>j' c r t. publish w msg tps j = Next j' \<and> t \<in> set tps \<and> (d, c) \<in> set (subscribers j t) \<and>
           filter (is_send d) (since j j') = [CallSend d c m r]"
proof -
  let ?j0 = "observe (CallPut msg tps (Some m)) j"
  from T obtain t0 where t0: "t0 \<in> set tps" "d \<in> fst ` set (subscribers j t0)" by blast
  then have h: "d \<in> handles j" using subscribers_handles by fastforce
  have wf0: "wf ?j0" using wf by (simp add: observe_def)
  have P0: "once j tps m d {} ?j0"
    using h by (simp add: once_def since_def)
  have "\<exists>seen' j'. dispatch w m tps {} ?j0 = Next (seen', j') \<and> wf j' \<and> once j tps m d seen' j' \<and> {} \<subseteq> seen'
          \<and> handles j' \<subseteq> handles ?j0 \<and> kept ?j0 j'
          \<and> (\<forall>t \<in> set tps. \<forall>d \<in> fst ` set (subscribers ?j0 t). d \<in> seen' \<or> d \<notin> handles j')"
    by (rule dispatch_rule [where P = "once j tps m d" and T = "set tps"])
       (use wf0 P0 in \<open>auto intro: once_ok once_bad\<close>)
  then obtain seen' j' where r: "dispatch w m tps {} ?j0 = Next (seen', j')" "once j tps m d seen' j'"
    "\<forall>t \<in> set tps. \<forall>d \<in> fst ` set (subscribers ?j0 t). d \<in> seen' \<or> d \<notin> handles j'" by blast
  from t0 have "d \<in> fst ` set (subscribers ?j0 t0)" by simp
  with r(3) t0(1) have "d \<in> seen' \<or> d \<notin> handles j'" by blast
  with r(2) obtain c r' t where "t \<in> set tps" "(d, c) \<in> set (subscribers j t)"
    "filter (is_send d) (since j j') = [CallSend d c m r']"
    unfolding once_def by auto
  moreover have "publish w msg tps j = Next j'"
    using put r(1) by (simp add: publish_def and_then_def)
  ultimately show ?thesis by blast
qed

theorem publish_once_witness:
  "wf joe0 \<and> Put world0 (trace joe0) 5 [''a'', ''b''] = Some 6 \<and>
   {''a'', ''b''} \<noteq> {} \<and> {''a'', ''b''} \<subseteq> set [''a'', ''b''] \<and>
   1 \<in> fst ` set (subscribers joe0 ''a'') \<and> 1 \<in> fst ` set (subscribers joe0 ''b'') \<and>
   (\<exists>j' c r t. publish world0 5 [''a'', ''b''] joe0 = Next j' \<and> t \<in> set [''a'', ''b''] \<and>
      (1, c) \<in> set (subscribers joe0 t) \<and>
      filter (is_send 1) (since joe0 j') = [CallSend 1 c 6 r])"
proof -
  have h1: "wf joe0" by (simp add: wf_def handles_def joe0_def fresh_def)
  have h2: "Put world0 (trace joe0) 5 [''a'', ''b''] = Some 6" by (simp add: world0_def)
  have h3: "{''a'', ''b''} \<noteq> ({} :: topic set)" by simp
  have h4: "{''a'', ''b''} \<subseteq> set [''a'', ''b'']" by simp
  have a: "1 \<in> fst ` set (subscribers joe0 ''a'')" by (simp add: subscribers_def joe0_def)
  have b: "1 \<in> fst ` set (subscribers joe0 ''b'')" by (simp add: subscribers_def joe0_def)
  from a b have h5: "\<forall>t \<in> {''a'', ''b''}. 1 \<in> fst ` set (subscribers joe0 t)" by blast
  from publish_once [OF h1 h2 h3 h4 h5] h1 h2 h3 h4 a b show ?thesis by blast
qed

section \<open>A sink that fails\<close>

lemma failing_ok:
  assumes "failing j0 seen j" "(d', c) \<in> set (subscribers j t)"
  shows "failing j0 (insert d' seen) (j\<lparr>trace := trace j @ [CallSend d' c m None, CallFlush d' c None]\<rparr>)"
  using assms unfolding failing_def by (auto simp: since_append)

lemma failing_bad:
  assumes "failing j0 seen j" "(d', c) \<in> set (subscribers j t)"
    "evs = [CallSend d' c m (Some e)] \<or> evs = [CallSend d' c m None, CallFlush d' c (Some e)]"
  shows "failing j0 seen (dropped d' e (j\<lparr>trace := trace j @ evs\<rparr>))"
proof -
  let ?j1 = "j\<lparr>trace := trace j @ evs\<rparr>"
  from assms(1) have len: "length (trace j0) \<le> length (trace j)" by (simp add: failing_def)
  from assms(2) have h: "d' \<in> handles j" using subscribers_handles by fastforce
  have len1: "length (trace j0) \<le> length (trace ?j1)" using len by simp
  have s: "since j0 (dropped d' e ?j1) = since j0 j @ evs @ [ChanSend d' e, ChanClose d']"
    using since_dropped [OF len1] since_append [OF len] by simp
  have old: "chans (dropped d' e ?j1) d = \<lparr>buf = [e'], closed = True\<rparr> \<and> d \<notin> handles (dropped d' e ?j1)"
    if "x \<in> set (since j0 j)" "failure x = Some (d, e')" for x d e'
  proof -
    from assms(1) that have *: "chans j d = \<lparr>buf = [e'], closed = True\<rparr>" "d \<notin> handles j"
      unfolding failing_def by blast+
    with h have "d \<noteq> d'" by blast
    with * show ?thesis by (simp add: chans_dropped handles_dropped)
  qed
  have new: "d = d' \<and> e' = e" if "x \<in> set evs" "failure x = Some (d, e')" for x d e'
    using that assms(3) by auto
  have "chans (dropped d' e ?j1) d = \<lparr>buf = [e'], closed = True\<rparr> \<and> d \<notin> handles (dropped d' e ?j1)"
    if "x \<in> set (since j0 (dropped d' e ?j1))" "failure x = Some (d, e')" for x d e'
  proof -
    from that(1) consider "x \<in> set (since j0 j)" | "x \<in> set evs" | "x = ChanSend d' e" | "x = ChanClose d'"
      unfolding s by auto
    then show ?thesis
    proof cases
      case 1
      then show ?thesis using that(2) by (rule old)
    next
      case 2
      then have "d = d' \<and> e' = e" using that(2) by (rule new)
      then show ?thesis by (simp add: chans_dropped handles_dropped)
    next
      case 3
      with that(2) show ?thesis by simp
    next
      case 4
      with that(2) show ?thesis by simp
    qed
  qed
  moreover have "length (trace j0) \<le> length (trace (dropped d' e ?j1))"
    using len by (simp add: trace_dropped)
  ultimately show ?thesis unfolding failing_def by blast
qed

lemma waiting_returns:
  assumes "chans j d = \<lparr>buf = [e], closed = True\<rparr>"
  shows "fst (Subscribe_move w pick False \<lparr>at = Waiting, chan_of = d, asked = sub\<rparr> j)
           = \<lparr>at = Returned (Some e), chan_of = d, asked = sub\<rparr>"
  using assms by (simp add: Subscribe_move_def chan_recv_def)

text \<open>
  A publish step on a well-formed state: when a send or a flush of the step fails with
  error \<open>e\<close> for the handle \<open>d\<close>, the step completes, \<open>d\<close> is under no topic afterwards and
  its channel holds \<open>e\<close> and is closed.  A call of \<^verbatim>\<open>Subscribe\<close> that is in its second
  \<^verbatim>\<open>select\<close> on that channel returns \<open>e\<close> if its context is not done.
\<close>

lemma failed_sink_removed:
  assumes wf: "wf j" and x: "x \<in> set (since j (state_of (publish w msg tps j)))"
    and f: "failure x = Some (d, e)"
  shows "\<exists>j'. publish w msg tps j = Next j' \<and> d \<notin> handles j' \<and>
           chans j' d = \<lparr>buf = [e], closed = True\<rparr> \<and>
           fst (Subscribe_move w pick False \<lparr>at = Waiting, chan_of = d, asked = sub\<rparr> j')
             = \<lparr>at = Returned (Some e), chan_of = d, asked = sub\<rparr>"
proof (cases "Put w (trace j) msg tps")
  case None
  with x have "x = CallPut msg tps None"
    by (simp add: publish_def state_of_def since_def)
  with f show ?thesis by simp
next
  case (Some m)
  let ?j0 = "observe (CallPut msg tps (Some m)) j"
  have wf0: "wf ?j0" using wf by (simp add: observe_def)
  have P0: "failing j {} ?j0" by (simp add: failing_def since_def)
  have "\<exists>seen' j'. dispatch w m tps {} ?j0 = Next (seen', j') \<and> wf j' \<and> failing j seen' j' \<and> {} \<subseteq> seen'
          \<and> handles j' \<subseteq> handles ?j0 \<and> kept ?j0 j'
          \<and> (\<forall>t \<in> set tps. \<forall>d \<in> fst ` set (subscribers ?j0 t). d \<in> seen' \<or> d \<notin> handles j')"
    by (rule dispatch_rule [where P = "failing j" and T = "set tps"])
       (use wf0 P0 in \<open>auto intro: failing_ok failing_bad\<close>)
  then obtain seen' j' where r: "dispatch w m tps {} ?j0 = Next (seen', j')" "failing j seen' j'" by blast
  have p: "publish w msg tps j = Next j'"
    using Some r(1) by (simp add: publish_def and_then_def)
  with x have "x \<in> set (since j j')" by (simp add: state_of_def)
  with r(2) f have "chans j' d = \<lparr>buf = [e], closed = True\<rparr>" "d \<notin> handles j'"
    unfolding failing_def by blast+
  with p waiting_returns [of j' d e w pick sub] show ?thesis by blast
qed

text \<open>
  C4.  The code when the context of the subscriber is done as its sink fails.  Sink 20 of
  subscriber 2 fails on \<^verbatim>\<open>Send\<close> in a publish step; the step puts the error in the
  channel of subscriber 2, closes it and takes the subscriber out of both topics.  The call
  of \<^verbatim>\<open>Subscribe\<close> is in its second \<^verbatim>\<open>select\<close>, where the channel and \<^verbatim>\<open>ctx.Done()\<close>
  are both ready, and takes the context; in the third, where the channel and the send to
  \<^verbatim>\<open>j.unsubscription\<close> are both ready, it takes the send.  It returns \<^verbatim>\<open>nil\<close>, and
  the loop, closing a closed channel in \<^verbatim>\<open>removeSubscriber\<close>, panics.  The claim says the
  call returns the error of the sink.
\<close>

theorem cancelled_subscribe_returns_nil:
  "\<exists>j1. publish world0 5 [''a''] joe0 = Next j1 \<and>
      CallSend 2 20 6 (Some (OtherErr ''broken pipe'')) \<in> set (since joe0 j1) \<and>
      2 \<notin> handles j1 \<and> chans j1 2 = \<lparr>buf = [OtherErr ''broken pipe''], closed = True\<rparr> \<and>
      Subscribe_move world0 True True waiting2 j1 = (waiting2\<lparr>at := Cancelling\<rparr>, j1) \<and>
      at (fst (Subscribe_move world0 True True (waiting2\<lparr>at := Cancelling\<rparr>) j1)) = Returned None \<and>
      loop (snd (Subscribe_move world0 True True (waiting2\<lparr>at := Cancelling\<rparr>) j1)) = Crashed"
proof -
  let ?x = "CallSend 2 20 6 (Some (OtherErr ''broken pipe''))"
  have h1: "wf joe0" by (simp add: wf_def handles_def joe0_def fresh_def)
  have h2: "?x \<in> set (since joe0 (state_of (publish world0 5 [''a''] joe0)))"
    by (simp add: publish_def and_then_def subscribers_def joe0_def world0_def send_flush_def
        observe_def send_chan_def chan_send_def removeSubscriber_def close_chan_def chan_close_def
        state_of_def since_def Let_def)
  have h3: "failure ?x = Some (2, OtherErr ''broken pipe'')" by simp
  from failed_sink_removed [OF h1 h2 h3]
  obtain j1 where j1: "publish world0 5 [''a''] joe0 = Next j1" "2 \<notin> handles j1"
    "chans j1 2 = \<lparr>buf = [OtherErr ''broken pipe''], closed = True\<rparr>" by blast
  from h2 j1(1) have x: "?x \<in> set (since joe0 j1)" by (simp add: state_of_def)
  have "loop (state_of (publish world0 5 [''a''] joe0)) = Running"
    by (simp add: publish_def and_then_def subscribers_def joe0_def world0_def send_flush_def
        observe_def send_chan_def chan_send_def removeSubscriber_def close_chan_def chan_close_def
        state_of_def Let_def)
  with j1(1) have run: "loop j1 = Running" by (simp add: state_of_def)
  have "loop (deferred True j) = Crashed" for j by (simp add: deferred_def Let_def)
  then have crash: "loop (handle world0 (Unsubscribe 2) j1) = Crashed"
    using run j1(3)
    by (simp add: handle_def start_def and_then_def removeSubscriber_def close_chan_def
        chan_close_def)
  have w: "at waiting2 = Waiting" "chan_of waiting2 = 2" by (simp_all add: waiting2_def)
  have m2: "Subscribe_move world0 True True waiting2 j1 = (waiting2\<lparr>at := Cancelling\<rparr>, j1)"
    using j1(3) w by (simp add: Subscribe_move_def chan_recv_def)
  have m3: "Subscribe_move world0 True True (waiting2\<lparr>at := Cancelling\<rparr>) j1
        = (waiting2\<lparr>at := Returned None\<rparr>, handle world0 (Unsubscribe 2) j1)"
    using j1(3) w run by (simp add: Subscribe_move_def chan_recv_def)
  show ?thesis using j1 x m2 m3 crash by (intro exI [of _ j1]) simp
qed

section \<open>Subscribing\<close>

lemma subscribers_topic [simp]: "subscribers (topic t j) t' = subscribers j t'"
  by (cases "map_of (topics j) t'") (auto simp: subscribers_def topic_def map_add_def)

lemma subscribers_topics_update:
  "subscribers (j\<lparr>topics := al\<rparr>) t = (case map_of al t of None \<Rightarrow> [] | Some subs \<Rightarrow> subs)"
  by (simp add: subscribers_def)

lemma subscribers_register:
  "subscribers (register d c t j) t' =
     (if t' = t then AList.update d c (subscribers j t) else subscribers j t')"
proof -
  let ?j1 = "topic t j"
  have "subscribers (register d c t j) t' =
      (case ((map_of (topics ?j1))(t \<mapsto> AList.update d c (subscribers ?j1 t))) t' of
         None \<Rightarrow> [] | Some subs \<Rightarrow> subs)"
    unfolding register_def Let_def subscribers_topics_update update_conv' ..
  also have "\<dots> = (if t' = t then AList.update d c (subscribers ?j1 t)
      else (case map_of (topics ?j1) t' of None \<Rightarrow> [] | Some subs \<Rightarrow> subs))"
    by simp
  also have "\<dots> = (if t' = t then AList.update d c (subscribers ?j1 t) else subscribers ?j1 t')"
    unfolding subscribers_def ..
  finally show ?thesis by simp
qed

lemma trace_register [simp]: "trace (register d c t j) = trace j"
  by (simp add: register_def Let_def topic_def)

lemma chans_register [simp]: "chans (register d c t j) = chans j"
  by (simp add: register_def Let_def topic_def)

lemma registered_fold:
  "(t \<in> set ts \<or> map_of (subscribers j t) d = Some c)
     \<Longrightarrow> map_of (subscribers (fold (register d c) ts j) t) d = Some c"
proof (induction ts arbitrary: j)
  case Nil
  then show ?case by simp
next
  case (Cons u us)
  show ?case
  proof (cases "u = t")
    case True
    have "map_of (subscribers (register d c u j) t) d = Some c"
      using True by (simp add: subscribers_register update_conv')
    then show ?thesis using Cons.IH [of "register d c u j"] by simp
  next
    case False
    with Cons.prems have "t \<in> set us \<or> map_of (subscribers (register d c u j) t) d = Some c"
      by (auto simp: subscribers_register)
    then show ?thesis using Cons.IH [of "register d c u j"] by simp
  qed
qed

lemma trace_fold_register [simp]: "trace (fold (register d c) ts j) = trace j"
  by (induction ts arbitrary: j) simp_all

lemma chans_fold_register [simp]: "chans (fold (register d c) ts j) = chans j"
  by (induction ts arbitrary: j) simp_all

text \<open>
  C6.  A subscribe step for a request whose channel is as \<^verbatim>\<open>Subscribe\<close> made it.  When
  \<^verbatim>\<open>Replay\<close> returns the error \<open>e\<close>, the step sends \<open>e\<close> on the channel and closes it, and
  that is all it does: the topic table is the same.  When \<^verbatim>\<open>Replay\<close> returns \<^verbatim>\<open>nil\<close>,
  the handle maps to the request's sink under every topic of the request.
\<close>

theorem subscribe_step:
  assumes "fresh (chans j (done_chan sub))"
  shows "(Replay w (trace j) (request sub) = Some (Some e) \<longrightarrow>
           (\<exists>j'. subscribe w sub j = Next j' \<and> topics j' = topics j \<and>
              chans j' (done_chan sub) = \<lparr>buf = [e], closed = True\<rparr> \<and>
              since j j' = [CallReplay (request sub) (Some (Some e)), ChanSend (done_chan sub) e,
                            ChanClose (done_chan sub)])) \<and>
         (Replay w (trace j) (request sub) = Some None \<longrightarrow>
           (\<exists>j'. subscribe w sub j = Next j' \<and> chans j' = chans j \<and>
              (\<forall>t \<in> set (Topics (request sub)).
                  map_of (subscribers j' t) (done_chan sub) = Some (Client (request sub)))))"
proof (intro conjI impI)
  assume r: "Replay w (trace j) (request sub) = Some (Some e)"
  let ?d = "done_chan sub"
  let ?j1 = "observe (CallReplay (request sub) (Some (Some e))) j"
  have fr: "fresh (chans ?j1 ?d)" using assms by simp
  let ?j2 = "observe (ChanSend ?d e) (?j1\<lparr>chans := (chans ?j1)(?d := \<lparr>buf = [e], closed = False\<rparr>)\<rparr>)"
  let ?j3 = "observe (ChanClose ?d) (?j2\<lparr>chans := (chans ?j2)(?d := \<lparr>buf = [e], closed = True\<rparr>)\<rparr>)"
  have "subscribe w sub j = and_then (send_chan ?d e ?j1) (close_chan ?d)"
    using r by (simp add: subscribe_def Let_def)
  also have "\<dots> = close_chan ?d ?j2"
    by (simp add: send_chan_fresh [OF fr] and_then_def)
  also have "\<dots> = Next ?j3"
    by (simp add: close_chan_def chan_close_def)
  finally have "subscribe w sub j = Next ?j3" .
  moreover have "topics ?j3 = topics j" "chans ?j3 ?d = \<lparr>buf = [e], closed = True\<rparr>"
    "since j ?j3 = [CallReplay (request sub) (Some (Some e)), ChanSend ?d e, ChanClose ?d]"
    by (simp_all add: since_def)
  ultimately show "\<exists>j'. subscribe w sub j = Next j' \<and> topics j' = topics j \<and>
              chans j' ?d = \<lparr>buf = [e], closed = True\<rparr> \<and>
              since j j' = [CallReplay (request sub) (Some (Some e)), ChanSend ?d e, ChanClose ?d]"
    by blast
next
  assume r: "Replay w (trace j) (request sub) = Some None"
  let ?j1 = "observe (CallReplay (request sub) (Some None)) j"
  let ?j' = "fold (register (done_chan sub) (Client (request sub))) (Topics (request sub)) ?j1"
  have "subscribe w sub j = Next ?j'"
    using r by (simp add: subscribe_def Let_def)
  moreover have "\<forall>t \<in> set (Topics (request sub)).
      map_of (subscribers ?j' t) (done_chan sub) = Some (Client (request sub))"
    by (simp add: registered_fold)
  moreover have "chans ?j' = chans j" by simp
  ultimately show "\<exists>j'. subscribe w sub j = Next j' \<and> chans j' = chans j \<and>
              (\<forall>t \<in> set (Topics (request sub)).
                  map_of (subscribers j' t) (done_chan sub) = Some (Client (request sub)))"
    by blast
qed

theorem subscribe_step_witness:
  "fresh (chans joe0 (done_chan sub0)) \<and>
   Replay world1 (trace joe0) (request sub0) = Some (Some (OtherErr ''replay'')) \<and>
   (\<exists>j'. subscribe world1 sub0 joe0 = Next j' \<and> topics j' = topics joe0 \<and>
      chans j' 3 = \<lparr>buf = [OtherErr ''replay''], closed = True\<rparr> \<and>
      since joe0 j' = [CallReplay (request sub0) (Some (Some (OtherErr ''replay''))),
                       ChanSend 3 (OtherErr ''replay''), ChanClose 3]) \<and>
   Replay world0 (trace joe0) (request sub0) = Some None \<and>
   (\<exists>j'. subscribe world0 sub0 joe0 = Next j' \<and> chans j' = chans joe0 \<and>
      map_of (subscribers j' ''b'') 3 = Some 30 \<and> map_of (subscribers j' ''c'') 3 = Some 30)"
proof -
  have h: "fresh (chans joe0 (done_chan sub0))" by (simp add: fresh_def joe0_def)
  have r1: "Replay world1 (trace joe0) (request sub0) = Some (Some (OtherErr ''replay''))"
    by (simp add: world1_def)
  have r0: "Replay world0 (trace joe0) (request sub0) = Some None"
    by (simp add: world0_def)
  have d: "done_chan sub0 = 3" "Client (request sub0) = 30" "Topics (request sub0) = [''b'', ''c'']"
    by (simp_all add: sub0_def)
  from subscribe_step [OF h, of world1 "OtherErr ''replay''"] r1 d
  have a: "\<exists>j'. subscribe world1 sub0 joe0 = Next j' \<and> topics j' = topics joe0 \<and>
      chans j' 3 = \<lparr>buf = [OtherErr ''replay''], closed = True\<rparr> \<and>
      since joe0 j' = [CallReplay (request sub0) (Some (Some (OtherErr ''replay''))),
                       ChanSend 3 (OtherErr ''replay''), ChanClose 3]"
    by simp
  from subscribe_step [OF h, of world0] r0 d
  have b: "\<exists>j'. subscribe world0 sub0 joe0 = Next j' \<and> chans j' = chans joe0 \<and>
      map_of (subscribers j' ''b'') 3 = Some 30 \<and> map_of (subscribers j' ''c'') 3 = Some 30"
    by simp
  from h r1 a r0 b show ?thesis by blast
qed

section \<open>What the steps leave alone\<close>

lemma frame_refl [simp]: "frame j j"
  by (simp add: frame_def)

lemma frame_trans: "frame j j1 \<Longrightarrow> frame j1 j2 \<Longrightarrow> frame j j2"
  unfolding frame_def by (auto; fastforce)

lemma frame_observe:
  "\<not> is_gc c \<Longrightarrow> c \<noteq> StopGC \<Longrightarrow> c \<noteq> CloseClosed \<Longrightarrow> frame j (observe c j)"
  by (simp add: frame_def entries_def)

lemma frame_chans: "frame j (j\<lparr>chans := ch\<rparr>)"
  by (simp add: frame_def entries_def)

lemma state_of_simps [simp]:
  "state_of (Next j) = j" "state_of (Return j) = j" "state_of (Panics j) = j"
  "state_of (Blocks j) = j"
  by (simp_all add: state_of_def)

lemma final_simps [simp]:
  "final (Next (seen, j)) = j" "final (Return j) = j" "final (Panics j) = j"
  "final (Blocks j) = j"
  by (simp_all add: final_def)

lemma frame_send_chan: "frame j (state_of (send_chan d e j))"
proof (cases "chan_send e (chans j d)")
  case (Ok c)
  have "frame j (j\<lparr>chans := (chans j)(d := c)\<rparr>)" by (rule frame_chans)
  moreover have "frame (j\<lparr>chans := (chans j)(d := c)\<rparr>) (observe (ChanSend d e) (j\<lparr>chans := (chans j)(d := c)\<rparr>))"
    by (rule frame_observe) simp_all
  ultimately show ?thesis using Ok by (simp add: send_chan_def frame_trans)
qed (simp_all add: send_chan_def)

lemma frame_close_chan: "frame j (state_of (close_chan d j))"
proof (cases "chan_close (chans j d)")
  case (Ok c)
  have "frame j (j\<lparr>chans := (chans j)(d := c)\<rparr>)" by (rule frame_chans)
  moreover have "frame (j\<lparr>chans := (chans j)(d := c)\<rparr>) (observe (ChanClose d) (j\<lparr>chans := (chans j)(d := c)\<rparr>))"
    by (rule frame_observe) simp_all
  ultimately show ?thesis using Ok by (simp add: close_chan_def frame_trans)
qed (simp_all add: close_chan_def)

lemma entries_map_delete:
  "entries (j\<lparr>topics := map (\<lambda>(t, subs). (t, f subs)) (topics j)\<rparr>) = entries j"
  by (simp add: entries_def image_image case_prod_beta)

lemma frame_delete: "frame j (j\<lparr>topics := map (\<lambda>(t, subs). (t, AList.delete d subs)) (topics j)\<rparr>)"
  by (simp add: frame_def entries_map_delete)

lemma frame_removeSubscriber: "frame j (state_of (removeSubscriber d j))"
  unfolding removeSubscriber_def
  by (rule frame_trans [OF frame_delete frame_close_chan])

lemma frame_and_then:
  assumes "frame j (state_of r)" "\<And>j1. r = Next j1 \<Longrightarrow> frame j1 (state_of (f j1))"
  shows "frame j (state_of (and_then r f))"
  using assms by (cases r) (auto simp: and_then_def intro: frame_trans)

lemma frame_send_flush: "frame j (snd (send_flush w d c m j))"
  by (cases "Send w (trace j) c m")
     (auto simp: send_flush_def Let_def observe_def frame_def entries_def)

lemma frame_deliver: "frame j (final (deliver w m xs seen j))"
proof (induction xs arbitrary: seen j)
  case Nil
  then show ?case by simp
next
  case (Cons x xs)
  obtain d c where x: "x = (d, c)" by (cases x)
  show ?case
  proof (cases "d \<in> seen")
    case True
    with x Cons.IH show ?thesis by simp
  next
    case False
    obtain r j1 where sf: "send_flush w d c m j = (r, j1)" by (cases "send_flush w d c m j")
    then have f1: "frame j j1" using frame_send_flush [of j w d c m] by simp
    show ?thesis
    proof (cases r)
      case None
      with x False sf have "deliver w m (x # xs) seen j = deliver w m xs (insert d seen) j1" by simp
      with Cons.IH [of j1] f1 show ?thesis by (auto intro: frame_trans)
    next
      case (Some e)
      let ?X = "and_then (send_chan d e j1) (removeSubscriber d)"
      have fX: "frame j1 (state_of ?X)"
        by (rule frame_and_then) (simp_all add: frame_send_chan frame_removeSubscriber)
      show ?thesis
      proof (cases ?X)
        case (Next j2)
        with x False sf Some have "deliver w m (x # xs) seen j = deliver w m xs seen j2" by simp
        moreover from fX Next have "frame j1 j2" by simp
        ultimately show ?thesis using Cons.IH [of j2] f1 by (auto intro: frame_trans)
      next
        case (Return j2)
        with x False sf Some have "deliver w m (x # xs) seen j = Return j2" by simp
        moreover from fX Return have "frame j1 j2" by simp
        ultimately show ?thesis using f1 by (auto intro: frame_trans)
      next
        case (Panics j2)
        with x False sf Some have "deliver w m (x # xs) seen j = Panics j2" by simp
        moreover from fX Panics have "frame j1 j2" by simp
        ultimately show ?thesis using f1 by (auto intro: frame_trans)
      next
        case (Blocks j2)
        with x False sf Some have "deliver w m (x # xs) seen j = Blocks j2" by simp
        moreover from fX Blocks have "frame j1 j2" by simp
        ultimately show ?thesis using f1 by (auto intro: frame_trans)
      qed
    qed
  qed
qed

lemma frame_dispatch: "frame j (final (dispatch w m ts seen j))"
proof (induction ts arbitrary: seen j)
  case Nil
  then show ?case by simp
next
  case (Cons t ts)
  have f: "frame j (final (deliver w m (subscribers j t) seen j))" by (rule frame_deliver)
  show ?case
  proof (cases "deliver w m (subscribers j t) seen j")
    case (Next p)
    obtain seen1 j1 where p: "p = (seen1, j1)" by (cases p)
    with Next f have "frame j j1" by simp
    with Next p Cons.IH [of j1 seen1] show ?thesis by (auto intro: frame_trans)
  qed (use f in auto)
qed

lemma frame_publish: "frame j (state_of (publish w msg tps j))"
proof (cases "Put w (trace j) msg tps")
  case None
  then show ?thesis by (simp add: publish_def frame_observe)
next
  case (Some m)
  let ?j0 = "observe (CallPut msg tps (Some m)) j"
  have "frame j ?j0" by (simp add: frame_observe)
  moreover have "frame ?j0 (final (dispatch w m tps {} ?j0))" by (rule frame_dispatch)
  moreover have "state_of (publish w msg tps j) = final (dispatch w m tps {} ?j0)"
    using Some by (cases "dispatch w m tps {} ?j0") (auto simp: publish_def and_then_def)
  ultimately show ?thesis by (auto intro: frame_trans)
qed

lemma entries_register: "entries (register d c t j) = insert t (entries j)"
  by (auto simp: entries_def register_def Let_def topic_def dom_update)

lemma frame_register: "frame j (register d c t j)"
proof -
  have "gc (register d c t j) = gc j" "done_closed (register d c t j) = done_closed j"
    "closed_closed (register d c t j) = closed_closed j" "initDone (register d c t j) = initDone j"
    "loop (register d c t j) = loop j" "made (register d c t j) = made j"
    "ReplayGCInterval (register d c t j) = ReplayGCInterval j"
    by (simp_all add: register_def Let_def topic_def)
  then show ?thesis by (simp add: frame_def entries_register subset_insertI)
qed

lemma frame_fold_register: "frame j (fold (register d c) ts j)"
proof (induction ts arbitrary: j)
  case (Cons t ts)
  from frame_register [of j d c t] Cons [of "register d c t j"] show ?case
    by (auto intro: frame_trans)
qed simp

lemma frame_subscribe: "frame j (state_of (subscribe w sub j))"
proof -
  let ?r = "Replay w (trace j) (request sub)"
  let ?j1 = "observe (CallReplay (request sub) ?r) j"
  have f1: "frame j ?j1" by (simp add: frame_observe)
  show ?thesis
  proof (cases ?r)
    case None
    with f1 show ?thesis by (simp add: subscribe_def Let_def)
  next
    case (Some a)
    show ?thesis
    proof (cases a)
      case None
      with Some have "state_of (subscribe w sub j) =
          fold (register (done_chan sub) (Client (request sub))) (Topics (request sub)) ?j1"
        by (simp add: subscribe_def Let_def)
      with f1 frame_fold_register [of ?j1] show ?thesis by (auto intro: frame_trans)
    next
      case (Some e)
      have "frame ?j1 (state_of (and_then (send_chan (done_chan sub) e ?j1) (close_chan (done_chan sub))))"
        by (rule frame_and_then) (simp_all add: frame_send_chan frame_close_chan)
      moreover have "subscribe w sub j = and_then (send_chan (done_chan sub) e ?j1) (close_chan (done_chan sub))"
        using Some \<open>?r = Some a\<close> by (simp add: subscribe_def Let_def)
      ultimately show ?thesis using f1 by (auto intro: frame_trans)
    qed
  qed
qed

section \<open>The topic table keeps its entries\<close>

lemma frame_close_each: "frame j (final (close_each xs seen j))"
proof (induction xs arbitrary: seen j)
  case Nil
  then show ?case by simp
next
  case (Cons x xs)
  obtain d c where x: "x = (d, c)" by (cases x)
  show ?case
  proof (cases "d \<in> seen")
    case True
    with x Cons.IH show ?thesis by simp
  next
    case False
    have f: "frame j (state_of (close_chan d j))" by (rule frame_close_chan)
    show ?thesis
    proof (cases "close_chan d j")
      case (Next j1)
      with f Cons.IH [of j1 "insert d seen"] x False show ?thesis by (auto intro: frame_trans)
    qed (use f x False in auto)
  qed
qed

lemma frame_close_topics: "frame j (final (close_topics al seen j))"
proof (induction al arbitrary: seen j)
  case Nil
  then show ?case by simp
next
  case (Cons a al)
  obtain t subs where a: "a = (t, subs)" by (cases a)
  have f: "frame j (final (close_each subs seen j))" by (rule frame_close_each)
  show ?case
  proof (cases "close_each subs seen j")
    case (Next p)
    obtain seen1 j1 where p: "p = (seen1, j1)" by (cases p)
    with Next f have "frame j j1" by simp
    with Next p a Cons.IH [of j1 seen1] show ?thesis by (auto intro: frame_trans)
  qed (use f a in auto)
qed

lemma state_of_closeSubscribers: "state_of (closeSubscribers j) = final (close_topics (topics j) {} j)"
  by (cases "close_topics (topics j) {} j") (auto simp: closeSubscribers_def and_then_def)

lemma frame_closeSubscribers: "frame j (state_of (closeSubscribers j))"
  by (simp add: state_of_closeSubscribers frame_close_topics)

lemma entries_deferred: "entries j \<subseteq> entries (deferred p j)"
proof -
  let ?j1 = "observe StopGC (j\<lparr>gc := stop (gc j)\<rparr>)"
  let ?j2 = "state_of (closeSubscribers ?j1)"
  have "entries j = entries ?j1" by (simp add: entries_def)
  moreover have "entries ?j1 \<subseteq> entries ?j2"
    using frame_closeSubscribers [of ?j1] by (simp add: frame_def)
  moreover have "entries (deferred p j) = entries ?j2"
    by (simp add: deferred_def Let_def entries_def)
  ultimately show ?thesis by simp
qed

lemma entries_step: "entries j \<subseteq> entries (state_of (step w r j))"
proof (cases r)
  case (Message msg tps)
  then show ?thesis using frame_publish [of j w msg tps] by (simp add: frame_def)
next
  case (Subscribe sub)
  then show ?thesis using frame_subscribe [of j w sub] by (simp add: frame_def)
next
  case (Unsubscribe d)
  then show ?thesis using frame_removeSubscriber [of j d] by (simp add: frame_def)
next
  case Tick
  then show ?thesis by (auto simp: entries_def Let_def split: option.splits)
next
  case Done
  then show ?thesis by simp
qed

lemma state_of_and_then:
  "state_of (and_then r f) = (case r of Next x \<Rightarrow> state_of (f x) | _ \<Rightarrow> state_of r)"
  by (cases r) (simp_all add: and_then_def)

lemma entries_run: "entries j \<subseteq> entries (state_of (run w rs j))"
proof (induction rs arbitrary: j)
  case Nil
  then show ?case by simp
next
  case (Cons r rs)
  have s: "entries j \<subseteq> entries (state_of (step w r j))" by (rule entries_step)
  show ?case
  proof (cases "step w r j")
    case (Next j1)
    with s Cons.IH [of j1] show ?thesis by (auto simp: and_then_def)
  qed (use s in \<open>simp_all add: and_then_def\<close>)
qed

lemma entries_start: "entries j \<subseteq> entries (start w rs j)"
proof -
  have r: "entries j \<subseteq> entries (state_of (run w rs j))" by (rule entries_run)
  show ?thesis
  proof (cases "run w rs j")
    case (Next j')
    with r show ?thesis by (simp add: start_def)
  next
    case (Return j')
    with r entries_deferred [of j' False] show ?thesis by (auto simp: start_def)
  next
    case (Panics j')
    with r entries_deferred [of j' True] show ?thesis by (auto simp: start_def)
  next
    case (Blocks j')
    with r show ?thesis by (simp add: start_def entries_def)
  qed
qed

text \<open>
  C8.  Whatever case the loop takes, every topic that has an entry before the step has one
  after it, also when the step panics or blocks; and so it is at any point of the life of
  the loop, the deferred cleanup included.  The steps delete subscribers from the maps, not
  the maps.
\<close>

theorem topic_entries_persist:
  "entries j \<subseteq> entries (state_of (step w r j)) \<and> entries j \<subseteq> entries (start w rs j)"
  by (simp add: entries_step entries_start)

theorem topic_entries_persist_witness:
  "entries joe0 \<subseteq> entries (start world0 [Unsubscribe 1, Unsubscribe 2] joe0) \<and>
   entries joe0 = {''a'', ''b''} \<and>
   topics (start world0 [Unsubscribe 1, Unsubscribe 2] joe0) = [(''a'', []), (''b'', [])]"
proof -
  have "topics (start world0 [Unsubscribe 1, Unsubscribe 2] joe0) = [(''a'', []), (''b'', [])]"
    by (simp add: start_def and_then_def removeSubscriber_def close_chan_def chan_close_def
        joe0_def observe_def)
  moreover have "entries joe0 = {''a'', ''b''}" by (simp add: entries_def joe0_def)
  ultimately show ?thesis
    using topic_entries_persist [of joe0 world0 Done "[Unsubscribe 1, Unsubscribe 2]"] by blast
qed

section \<open>The ticker after a failed collection\<close>

lemma frame_step: "r \<noteq> Tick \<Longrightarrow> frame j (state_of (step w r j))"
  by (cases r) (simp_all add: frame_publish frame_subscribe frame_removeSubscriber)

lemma tick_calls_gc:
  assumes "GC w = Some gcFn"
  shows "filter is_gc (since j (state_of (step w Tick j))) = [CallGC (gcFn (trace j))]"
  using assms by (simp add: Let_def since_def)

lemma gc_error_calls_stop:
  assumes "GC w = Some gcFn" and "gcFn (trace j) = Some e"
  shows "\<exists>j1. step w Tick j = Next j1 \<and> topics j1 = topics j \<and> chans j1 = chans j \<and>
           gc j1 = stop (gc j) \<and> since j j1 = [CallGC (Some e), StopGC]"
  using assms by (simp add: Let_def since_def)

text \<open>
  C9.  The code at a tick on which \<^verbatim>\<open>GC\<close> returns an error, followed by the tick that was
  in the ticker's channel: the first tick calls \<^verbatim>\<open>GC\<close> and then the ticker's stop
  function, and leaves the ticker stopped; the second tick is received all the same, and the
  loop calls \<^verbatim>\<open>GC\<close> a second time.  The claim says it is not called again.
\<close>

theorem gc_called_after_stop:
  "\<exists>j1. step world0 Tick joe0 = Next j1 \<and>
      since joe0 j1 = [CallGC (Some (OtherErr ''gc'')), StopGC] \<and> gc j1 = Ticker False \<and>
      filter is_gc (since j1 (state_of (step world0 Tick j1))) = [CallGC (Some (OtherErr ''gc''))] \<and>
      filter is_gc (trace (start world0 [Tick, Tick] joe0))
        = [CallGC (Some (OtherErr ''gc'')), CallGC (Some (OtherErr ''gc''))]"
proof -
  have g: "GC world0 = Some (\<lambda>tr. Some (OtherErr ''gc''))" by (simp add: world0_def)
  from gc_error_calls_stop [OF g, where j = joe0 and e = "OtherErr ''gc''"]
  obtain j1 where j1: "step world0 Tick joe0 = Next j1" "gc j1 = stop (gc joe0)"
    "since joe0 j1 = [CallGC (Some (OtherErr ''gc'')), StopGC]" by auto
  have "gc j1 = Ticker False" using j1(2) by (simp add: joe0_def)
  moreover have "filter is_gc (since j1 (state_of (step world0 Tick j1)))
      = [CallGC (Some (OtherErr ''gc''))]"
    using tick_calls_gc [OF g, where j = j1] by simp
  moreover have "filter is_gc (trace (start world0 [Tick, Tick] joe0))
      = [CallGC (Some (OtherErr ''gc'')), CallGC (Some (OtherErr ''gc''))]"
    by (simp add: start_def and_then_def joe0_def world0_def observe_def Let_def)
  ultimately show ?thesis using j1(1,3) by blast
qed

section \<open>What the deferred cleanup does\<close>

lemma set_pending: "set (pending xs seen) = fst ` set xs - seen"
  by (induction xs seen rule: pending.induct) auto

lemma distinct_pending: "distinct (pending xs seen)"
  by (induction xs seen rule: pending.induct) (auto simp: set_pending)

lemma set_pending_topics:
  "set (pending_topics al seen) = (\<Union>(t, subs) \<in> set al. fst ` set subs) - seen"
  by (induction al seen rule: pending_topics.induct) (auto simp: set_pending)

lemma distinct_pending_topics: "distinct (pending_topics al seen)"
  by (induction al seen rule: pending_topics.induct)
     (auto simp: set_pending set_pending_topics distinct_pending)

lemma close_chan_open:
  assumes "\<not> closed (chans j d)"
  shows "\<exists>j'. close_chan d j = Next j' \<and> frame j j' \<and> topics j' = topics j \<and>
           trace j' = trace j @ [ChanClose d] \<and>
           (\<forall>d'. closed (chans j' d') = (closed (chans j d') \<or> d' = d))"
proof -
  let ?j' = "observe (ChanClose d) (j\<lparr>chans := (chans j)(d := (chans j d)\<lparr>closed := True\<rparr>)\<rparr>)"
  have c: "close_chan d j = Next ?j'"
    using assms by (simp add: close_chan_def chan_close_def)
  moreover have "frame j ?j'" using frame_close_chan [of j d] c by simp
  moreover have "\<forall>d'. closed (chans ?j' d') = (closed (chans j d') \<or> d' = d)" by simp
  ultimately show ?thesis by (intro exI [of _ ?j']) simp
qed

lemma close_each_open:
  assumes "\<forall>d \<in> fst ` set xs - seen. \<not> closed (chans j d)"
  shows "\<exists>j'. close_each xs seen j = Next (seen \<union> fst ` set xs, j') \<and> frame j j' \<and>
           topics j' = topics j \<and> trace j' = trace j @ map ChanClose (pending xs seen) \<and>
           (\<forall>d. closed (chans j' d) = (closed (chans j d) \<or> d \<in> set (pending xs seen)))"
  using assms
proof (induction xs arbitrary: seen j)
  case Nil
  then show ?case by simp
next
  case (Cons x xs)
  obtain d c where x: "x = (d, c)" by (cases x)
  show ?case
  proof (cases "d \<in> seen")
    case True
    from Cons.prems x have "\<forall>d \<in> fst ` set xs - seen. \<not> closed (chans j d)" by auto
    from Cons.IH [OF this] obtain j' where
      "close_each xs seen j = Next (seen \<union> fst ` set xs, j')" "frame j j'" "topics j' = topics j"
      "trace j' = trace j @ map ChanClose (pending xs seen)"
      "\<forall>d. closed (chans j' d) = (closed (chans j d) \<or> d \<in> set (pending xs seen))" by blast
    moreover have "seen \<union> fst ` set (x # xs) = seen \<union> fst ` set xs" using True x by auto
    ultimately show ?thesis using True x by simp
  next
    case False
    with Cons.prems x have "\<not> closed (chans j d)" by auto
    from close_chan_open [OF this] obtain j1 where j1: "close_chan d j = Next j1" "frame j j1"
      "topics j1 = topics j" "trace j1 = trace j @ [ChanClose d]"
      "\<forall>d'. closed (chans j1 d') = (closed (chans j d') \<or> d' = d)" by blast
    have "\<forall>d' \<in> fst ` set xs - insert d seen. \<not> closed (chans j1 d')"
      using Cons.prems x j1(5) by auto
    from Cons.IH [OF this] obtain j' where j': 
      "close_each xs (insert d seen) j1 = Next (insert d seen \<union> fst ` set xs, j')" "frame j1 j'"
      "topics j' = topics j1" "trace j' = trace j1 @ map ChanClose (pending xs (insert d seen))"
      "\<forall>d'. closed (chans j' d') = (closed (chans j1 d') \<or> d' \<in> set (pending xs (insert d seen)))"
      by blast
    have "close_each (x # xs) seen j = Next (seen \<union> fst ` set (x # xs), j')"
      using x False j1(1) j'(1) by simp
    moreover have "frame j j'" using j1(2) j'(2) by (rule frame_trans)
    moreover have "trace j' = trace j @ map ChanClose (pending (x # xs) seen)"
      using x False j1(4) j'(4) by simp
    moreover have "\<forall>d'. closed (chans j' d') = (closed (chans j d') \<or> d' \<in> set (pending (x # xs) seen))"
      using x False j1(5) j'(5) by auto
    ultimately show ?thesis using j1(3) j'(3) by simp
  qed
qed

lemma close_topics_open:
  assumes "\<forall>d \<in> (\<Union>(t, subs) \<in> set al. fst ` set subs) - seen. \<not> closed (chans j d)"
  shows "\<exists>seen' j'. close_topics al seen j = Next (seen', j') \<and> frame j j' \<and>
           topics j' = topics j \<and> trace j' = trace j @ map ChanClose (pending_topics al seen) \<and>
           (\<forall>d. closed (chans j' d) = (closed (chans j d) \<or> d \<in> set (pending_topics al seen)))"
  using assms
proof (induction al arbitrary: seen j)
  case Nil
  then show ?case by simp
next
  case (Cons a al)
  obtain t subs where a: "a = (t, subs)" by (cases a)
  from Cons.prems a have "\<forall>d \<in> fst ` set subs - seen. \<not> closed (chans j d)" by auto
  from close_each_open [OF this] obtain j1 where j1:
    "close_each subs seen j = Next (seen \<union> fst ` set subs, j1)" "frame j j1"
    "topics j1 = topics j" "trace j1 = trace j @ map ChanClose (pending subs seen)"
    "\<forall>d. closed (chans j1 d) = (closed (chans j d) \<or> d \<in> set (pending subs seen))" by blast
  have "\<forall>d \<in> (\<Union>(t, subs) \<in> set al. fst ` set subs) - (seen \<union> fst ` set subs). \<not> closed (chans j1 d)"
    using Cons.prems a j1(5) by (auto simp: set_pending)
  from Cons.IH [OF this] obtain seen' j' where j':
    "close_topics al (seen \<union> fst ` set subs) j1 = Next (seen', j')" "frame j1 j'"
    "topics j' = topics j1"
    "trace j' = trace j1 @ map ChanClose (pending_topics al (seen \<union> fst ` set subs))"
    "\<forall>d. closed (chans j' d) = (closed (chans j1 d) \<or> d \<in> set (pending_topics al (seen \<union> fst ` set subs)))"
    by blast
  have "close_topics (a # al) seen j = Next (seen', j')" using a j1(1) j'(1) by simp
  moreover have "frame j j'" using j1(2) j'(2) by (rule frame_trans)
  moreover have "trace j' = trace j @ map ChanClose (pending_topics (a # al) seen)"
    using a j1(4) j'(4) by simp
  moreover have "\<forall>d. closed (chans j' d) = (closed (chans j d) \<or> d \<in> set (pending_topics (a # al) seen))"
    using a j1(5) j'(5) by auto
  ultimately show ?case using j1(3) j'(3) by simp
qed

lemma closeSubscribers_open:
  assumes "\<forall>d \<in> handles j. \<not> closed (chans j d)"
  shows "\<exists>ds j'. closeSubscribers j = Next j' \<and> frame j j' \<and> topics j' = topics j \<and>
           distinct ds \<and> set ds = handles j \<and> trace j' = trace j @ map ChanClose ds \<and>
           (\<forall>d. closed (chans j' d) = (closed (chans j d) \<or> d \<in> handles j))"
proof -
  have "\<forall>d \<in> (\<Union>(t, subs) \<in> set (topics j). fst ` set subs) - {}. \<not> closed (chans j d)"
    using assms by (simp add: handles_def)
  from close_topics_open [OF this] obtain seen' j' where j':
    "close_topics (topics j) {} j = Next (seen', j')" "frame j j'" "topics j' = topics j"
    "trace j' = trace j @ map ChanClose (pending_topics (topics j) {})"
    "\<forall>d. closed (chans j' d) = (closed (chans j d) \<or> d \<in> set (pending_topics (topics j) {}))"
    by blast
  have s: "set (pending_topics (topics j) {}) = handles j"
    by (simp add: set_pending_topics handles_def)
  have "closeSubscribers j = Next j'" using j'(1) by (simp add: closeSubscribers_def and_then_def)
  with j' s distinct_pending_topics [of "topics j" "{}"] show ?thesis by metis
qed

section \<open>Well-formed states stay well formed\<close>

lemma wf_cong:
  assumes "wf j" "topics j' = topics j" "\<forall>d \<in> handles j. chans j' d = chans j d"
  shows "wf j'"
proof -
  have "handles j' = handles j" using assms(2) by (simp add: handles_def)
  with assms show ?thesis by (simp add: wf_def)
qed

lemma handles_delete:
  "handles (j\<lparr>topics := map (\<lambda>(t, subs). (t, AList.delete d subs)) (topics j)\<rparr>) = handles j - {d}"
proof -
  have "handles (j\<lparr>topics := map (\<lambda>(t, subs). (t, AList.delete d subs)) (topics j)\<rparr>)
      = handles (dropped d undefined j)"
    by (simp add: handles_def dropped_def)
  then show ?thesis by (simp add: handles_dropped)
qed

lemma wf_delete:
  assumes "wf j"
  shows "wf (j\<lparr>topics := map (\<lambda>(t, subs). (t, AList.delete d subs)) (topics j)\<rparr>)"
  using assms unfolding wf_def handles_delete by (auto simp: distinct_delete)

lemma wf_removeSubscriber:
  assumes "wf j"
  shows "wf (state_of (removeSubscriber d j))"
proof -
  let ?j1 = "j\<lparr>topics := map (\<lambda>(t, subs). (t, AList.delete d subs)) (topics j)\<rparr>"
  have w1: "wf ?j1" using assms by (rule wf_delete)
  have d: "d \<notin> handles ?j1" by (simp add: handles_delete)
  show ?thesis
  proof (cases "chan_close (chans ?j1 d)")
    case (Ok c)
    let ?j2 = "observe (ChanClose d) (?j1\<lparr>chans := (chans ?j1)(d := c)\<rparr>)"
    have "wf ?j2" by (rule wf_cong [OF w1]) (use d in auto)
    moreover have "removeSubscriber d j = Next ?j2"
      using Ok by (simp add: removeSubscriber_def close_chan_def)
    ultimately show ?thesis by simp
  next
    case Panic
    then have "removeSubscriber d j = Panics ?j1" by (simp add: removeSubscriber_def close_chan_def)
    with w1 show ?thesis by simp
  next
    case Block
    then have "removeSubscriber d j = Blocks ?j1" by (simp add: removeSubscriber_def close_chan_def)
    with w1 show ?thesis by simp
  qed
qed

lemma wf_publish:
  assumes "wf j"
  shows "wf (state_of (publish w msg tps j))"
proof (cases "Put w (trace j) msg tps")
  case None
  with assms show ?thesis by (simp add: publish_def observe_def)
next
  case (Some m)
  let ?j0 = "observe (CallPut msg tps (Some m)) j"
  have wf0: "wf ?j0" using assms by (simp add: observe_def)
  have "\<exists>seen' j'. dispatch w m tps {} ?j0 = Next (seen', j') \<and> wf j' \<and> True \<and> {} \<subseteq> seen'
          \<and> handles j' \<subseteq> handles ?j0 \<and> kept ?j0 j'
          \<and> (\<forall>t \<in> set tps. \<forall>d \<in> fst ` set (subscribers ?j0 t). d \<in> seen' \<or> d \<notin> handles j')"
    by (rule dispatch_rule [where P = "\<lambda>seen j. True" and T = "set tps"]) (use wf0 in auto)
  then obtain seen' j' where "dispatch w m tps {} ?j0 = Next (seen', j')" "wf j'" by blast
  with Some show ?thesis by (simp add: publish_def and_then_def)
qed

lemma set_update_subset: "set (AList.update k v al) \<subseteq> insert (k, v) (set al)"
  by (induction al) auto

lemma topics_register:
  assumes "(t', s') \<in> set (topics (register d c t j))"
  shows "(t', s') \<in> set (topics j) \<or> s' = [] \<or> s' = AList.update d c (subscribers j t)"
proof -
  from assms have "(t', s') \<in> set (AList.update t (AList.update d c (subscribers j t)) (topics (topic t j)))"
    by (simp add: register_def Let_def)
  with set_update_subset have "(t', s') = (t, AList.update d c (subscribers j t))
      \<or> (t', s') \<in> set (topics (topic t j))" by fastforce
  then show ?thesis by (auto simp: topic_def split: if_splits)
qed

lemma handles_register: "handles (register d c t j) \<subseteq> insert d (handles j)"
proof
  fix h assume "h \<in> handles (register d c t j)"
  then obtain t' s' c' where e: "(t', s') \<in> set (topics (register d c t j))" "(h, c') \<in> set s'"
    unfolding handles_iff by blast
  from topics_register [OF e(1)] consider "(t', s') \<in> set (topics j)" | "s' = []"
    | "s' = AList.update d c (subscribers j t)" by blast
  then show "h \<in> insert d (handles j)"
  proof cases
    case 1
    with e(2) have "h \<in> handles j" unfolding handles_iff by blast
    then show ?thesis by simp
  next
    case 2
    with e(2) show ?thesis by simp
  next
    case 3
    with e(2) set_update_subset [of d c "subscribers j t"]
    have "(h, c') = (d, c) \<or> (h, c') \<in> set (subscribers j t)" by blast
    then show ?thesis using subscribers_handles [of "(h, c')" j t] by auto
  qed
qed

lemma wf_register:
  assumes "wf j" "fresh (chans j d)"
  shows "wf (register d c t j)"
proof -
  have "distinct (map fst s')" if "(t', s') \<in> set (topics (register d c t j))" for t' s'
  proof -
    from topics_register [OF that] consider "(t', s') \<in> set (topics j)" | "s' = []"
      | "s' = AList.update d c (subscribers j t)" by blast
    then show ?thesis
    proof cases
      case 1
      with assms(1) show ?thesis unfolding wf_def by blast
    next
      case 2
      then show ?thesis by simp
    next
      case 3
      then show ?thesis using distinct_subscribers [OF assms(1), of t] by (simp add: distinct_update)
    qed
  qed
  moreover have "fresh (chans (register d c t j) h)" if "h \<in> handles (register d c t j)" for h
  proof -
    from that handles_register have "h = d \<or> h \<in> handles j" by blast
    with assms show ?thesis unfolding wf_def by auto
  qed
  ultimately show ?thesis unfolding wf_def by blast
qed

lemma wf_fold_register:
  assumes "wf j" "fresh (chans j d)"
  shows "wf (fold (register d c) ts j)"
  using assms
proof (induction ts arbitrary: j)
  case Nil
  then show ?case by simp
next
  case (Cons t ts)
  have "wf (register d c t j)" using Cons.prems by (rule wf_register)
  moreover have "fresh (chans (register d c t j) d)" using Cons.prems(2) by simp
  ultimately show ?case using Cons.IH by simp
qed

lemma wf_subscribe:
  assumes "wf j" "fresh (chans j (done_chan sub))" "done_chan sub \<notin> handles j"
  shows "wf (state_of (subscribe w sub j))"
proof -
  let ?d = "done_chan sub"
  let ?r = "Replay w (trace j) (request sub)"
  let ?j1 = "observe (CallReplay (request sub) ?r) j"
  have w1: "wf ?j1" using assms(1) by (simp add: observe_def)
  have f1: "fresh (chans ?j1 ?d)" using assms(2) by simp
  show ?thesis
  proof (cases ?r)
    case None
    with w1 show ?thesis by (simp add: subscribe_def Let_def)
  next
    case (Some a)
    show ?thesis
    proof (cases a)
      case None
      with Some have "state_of (subscribe w sub j) =
          fold (register ?d (Client (request sub))) (Topics (request sub)) ?j1"
        by (simp add: subscribe_def Let_def)
      with wf_fold_register [OF w1 f1] show ?thesis by simp
    next
      case (Some e)
      let ?j2 = "observe (ChanSend ?d e) (?j1\<lparr>chans := (chans ?j1)(?d := \<lparr>buf = [e], closed = False\<rparr>)\<rparr>)"
      let ?j3 = "observe (ChanClose ?d) (?j2\<lparr>chans := (chans ?j2)(?d := \<lparr>buf = [e], closed = True\<rparr>)\<rparr>)"
      have "subscribe w sub j = and_then (send_chan ?d e ?j1) (close_chan ?d)"
        using Some \<open>?r = Some a\<close> by (simp add: subscribe_def Let_def)
      also have "\<dots> = close_chan ?d ?j2"
        by (simp add: send_chan_fresh [OF f1] and_then_def)
      also have "\<dots> = Next ?j3"
        by (simp add: close_chan_def chan_close_def)
      finally have "state_of (subscribe w sub j) = ?j3" by simp
      moreover have "wf ?j3" by (rule wf_cong [OF assms(1)]) (use assms(3) in auto)
      ultimately show ?thesis by simp
    qed
  qed
qed

lemma wf_step:
  assumes "wf j" "admissible r j"
  shows "wf (state_of (step w r j))"
proof (cases r)
  case (Message msg tps)
  with assms show ?thesis by (simp add: wf_publish)
next
  case (Subscribe sub)
  with assms show ?thesis by (simp add: wf_subscribe)
next
  case (Unsubscribe d)
  with assms show ?thesis by (simp add: wf_removeSubscriber)
next
  case Tick
  have "wf (state_of (step w Tick j))"
    by (rule wf_cong [OF assms(1)]) (auto simp: Let_def split: option.splits)
  with Tick show ?thesis by simp
next
  case Done
  with assms show ?thesis by simp
qed

lemma wf_run:
  assumes "wf j" "admissible_run w rs j"
  shows "wf (state_of (run w rs j))"
  using assms
proof (induction rs arbitrary: j)
  case Nil
  then show ?case by simp
next
  case (Cons r rs)
  from Cons.prems have a: "admissible r j" by simp
  have s: "wf (state_of (step w r j))" using Cons.prems(1) a by (rule wf_step)
  show ?case
  proof (cases "step w r j")
    case (Next j1)
    with Cons.prems s have "wf j1" "admissible_run w rs j1" by simp_all
    from Cons.IH [OF this] Next show ?thesis by (simp add: and_then_def)
  qed (use s in \<open>simp_all add: and_then_def\<close>)
qed

lemma closed_closed_step: "closed_closed (state_of (step w r j)) = closed_closed j"
proof (cases "r = Tick")
  case True
  then show ?thesis by (auto simp: Let_def split: option.splits)
next
  case False
  then show ?thesis using frame_step [of r j w] by (simp add: frame_def)
qed

lemma closed_closed_run: "closed_closed (state_of (run w rs j)) = closed_closed j"
proof (induction rs arbitrary: j)
  case Nil
  then show ?case by simp
next
  case (Cons r rs)
  have s: "closed_closed (state_of (step w r j)) = closed_closed j" by (rule closed_closed_step)
  show ?case
  proof (cases "step w r j")
    case (Next j1)
    with s Cons.IH [of j1] show ?thesis by (simp add: and_then_def)
  qed (use s in \<open>simp_all add: and_then_def\<close>)
qed

lemma no_block_step:
  assumes "wf j" "admissible r j"
  shows "step w r j \<noteq> Blocks j'"
proof (cases r)
  case (Message msg tps)
  show ?thesis
  proof (cases "Put w (trace j) msg tps")
    case None
    with Message show ?thesis by (simp add: publish_def)
  next
    case (Some m)
    let ?j0 = "observe (CallPut msg tps (Some m)) j"
    have wf0: "wf ?j0" using assms(1) by (simp add: observe_def)
    have "\<exists>seen' j'. dispatch w m tps {} ?j0 = Next (seen', j') \<and> wf j' \<and> True \<and> {} \<subseteq> seen'
          \<and> handles j' \<subseteq> handles ?j0 \<and> kept ?j0 j'
          \<and> (\<forall>t \<in> set tps. \<forall>d \<in> fst ` set (subscribers ?j0 t). d \<in> seen' \<or> d \<notin> handles j')"
      by (rule dispatch_rule [where P = "\<lambda>seen j. True" and T = "set tps"]) (use wf0 in auto)
    then obtain seen' j1 where "dispatch w m tps {} ?j0 = Next (seen', j1)" by blast
    with Some Message show ?thesis by (simp add: publish_def and_then_def)
  qed
next
  case (Subscribe sub)
  let ?d = "done_chan sub"
  let ?r = "Replay w (trace j) (request sub)"
  let ?j1 = "observe (CallReplay (request sub) ?r) j"
  have f1: "fresh (chans ?j1 ?d)" using assms(2) Subscribe by simp
  show ?thesis
  proof (cases ?r)
    case None
    with Subscribe show ?thesis by (simp add: subscribe_def Let_def)
  next
    case (Some a)
    show ?thesis
    proof (cases a)
      case None
      with Some Subscribe show ?thesis by (simp add: subscribe_def Let_def)
    next
      case (Some e)
      have "subscribe w sub j = and_then (send_chan ?d e ?j1) (close_chan ?d)"
        using Some \<open>?r = Some a\<close> by (simp add: subscribe_def Let_def)
      then show ?thesis using Subscribe
        by (simp add: send_chan_fresh [OF f1] and_then_def close_chan_def chan_close_def)
    qed
  qed
next
  case (Unsubscribe d)
  then show ?thesis
    by (simp add: removeSubscriber_def close_chan_def chan_close_def)
next
  case Tick
  then show ?thesis by (simp add: Let_def split: option.splits)
next
  case Done
  then show ?thesis by simp
qed

lemma run_terminates:
  assumes "wf j" "admissible_run w rs j" "Done \<in> set rs"
  shows "\<exists>j'. run w rs j = Return j' \<or> run w rs j = Panics j'"
  using assms
proof (induction rs arbitrary: j)
  case Nil
  then show ?case by simp
next
  case (Cons r rs)
  from Cons.prems have a: "admissible r j" by simp
  have s: "wf (state_of (step w r j))" using Cons.prems(1) a by (rule wf_step)
  show ?case
  proof (cases "step w r j")
    case (Next j1)
    then have "r \<noteq> Done" by auto
    with Cons.prems Next s have "wf j1" "admissible_run w rs j1" "Done \<in> set rs" by simp_all
    from Cons.IH [OF this] Next show ?thesis by (simp add: and_then_def)
  next
    case (Blocks j1)
    with no_block_step [OF Cons.prems(1) a] show ?thesis by blast
  qed (simp_all add: and_then_def)
qed

lemma closes_once:
  assumes "distinct ds" "d \<in> set ds"
  shows "length (filter (is_close d) (StopGC # map ChanClose ds @ [CloseClosed])) = 1"
proof -
  have "filter (is_close d) (map ChanClose ds) = map ChanClose (filter (\<lambda>x. x = d) ds)"
    by (induction ds) auto
  moreover have "length (filter (\<lambda>x. x = d) ds) = 1"
    using assms by (induction ds) (auto simp: filter_empty_conv)
  ultimately show ?thesis by simp
qed

lemma deferred_wf:
  assumes "wf j" "\<not> closed_closed j"
  shows "closed_closed (deferred p j) \<and> \<not> ticks (gc (deferred p j)) \<and>
         loop (deferred p j) = (if p then Crashed else Exited) \<and>
         (\<exists>ds. distinct ds \<and> set ds = handles j \<and>
            since j (deferred p j) = StopGC # map ChanClose ds @ [CloseClosed]) \<and>
         (\<forall>d \<in> handles j. closed (chans (deferred p j) d))"
proof -
  let ?j1 = "observe StopGC (j\<lparr>gc := stop (gc j)\<rparr>)"
  have h1: "handles ?j1 = handles j" by (simp add: handles_def)
  have "\<forall>d \<in> handles ?j1. \<not> closed (chans ?j1 d)"
    using assms(1) unfolding h1 by (simp add: wf_def fresh_def)
  from closeSubscribers_open [OF this] obtain ds j2 where j2:
    "closeSubscribers ?j1 = Next j2" "frame ?j1 j2" "distinct ds" "set ds = handles ?j1"
    "trace j2 = trace ?j1 @ map ChanClose ds"
    "\<forall>d. closed (chans j2 d) = (closed (chans ?j1 d) \<or> d \<in> handles ?j1)" by blast
  from j2(2) assms(2) have c2: "\<not> closed_closed j2" "gc j2 = stop (gc j)"
    by (simp_all add: frame_def)
  let ?j3 = "observe CloseClosed (j2\<lparr>closed_closed := True\<rparr>)"
  have d: "deferred p j = ?j3\<lparr>loop := (if p then Crashed else Exited)\<rparr>"
    using j2(1) c2(1) by (simp add: deferred_def Let_def went_on_def)
  have off: "\<not> ticks (stop (gc j))" by (cases "gc j") simp_all
  have "since j (deferred p j) = StopGC # map ChanClose ds @ [CloseClosed]"
    unfolding d using j2(5) by (simp add: since_def)
  moreover have "\<forall>d \<in> handles j. closed (chans (deferred p j) d)"
    unfolding d using j2(6) h1 by simp
  moreover have "closed_closed (deferred p j)" "\<not> ticks (gc (deferred p j))"
    "loop (deferred p j) = (if p then Crashed else Exited)"
    unfolding d using c2(2) off by simp_all
  ultimately show ?thesis using j2(3,4) h1 by blast
qed

text \<open>
  C7.  A run of the loop from a well-formed state, on admissible requests, that ends: by
  \<^verbatim>\<open>return\<close> on the stop signal, or by a panic.  Either way the deferred calls run, and
  what they do, in this order, is: stop the ticker, close every handle of the topic table
  once (the list \<open>ds\<close> has no handle twice and has them all), close \<^verbatim>\<open>j.closed\<close>.
  Afterwards every such handle is closed and was closed exactly once.
\<close>

theorem cleanup_on_exit:
  assumes "wf j" and "admissible_run w rs j" and "\<not> closed_closed j"
    and "run w rs j = Return j' \<or> run w rs j = Panics j'"
  shows "closed_closed (start w rs j) \<and> \<not> ticks (gc (start w rs j)) \<and>
         loop (start w rs j) = (if run w rs j = Return j' then Exited else Crashed) \<and>
         (\<exists>ds. distinct ds \<and> set ds = handles j' \<and>
            since j' (start w rs j) = StopGC # map ChanClose ds @ [CloseClosed]) \<and>
         (\<forall>d \<in> handles j'. closed (chans (start w rs j) d) \<and>
            length (filter (is_close d) (since j' (start w rs j))) = 1)"
proof -
  from assms(4) have j': "j' = state_of (run w rs j)" by auto
  have w: "wf j'" unfolding j' using assms(1,2) by (rule wf_run)
  have c: "\<not> closed_closed j'" unfolding j' using assms(3) by (simp add: closed_closed_run)
  define p where "p = (run w rs j \<noteq> Return j')"
  have s: "start w rs j = deferred p j'"
    using assms(4) by (auto simp: start_def p_def)
  from deferred_wf [OF w c, of p] obtain ds where ds:
    "closed_closed (deferred p j')" "\<not> ticks (gc (deferred p j'))"
    "loop (deferred p j') = (if p then Crashed else Exited)"
    "distinct ds" "set ds = handles j'"
    "since j' (deferred p j') = StopGC # map ChanClose ds @ [CloseClosed]"
    "\<forall>d \<in> handles j'. closed (chans (deferred p j') d)" by blast
  have "\<forall>d \<in> handles j'. length (filter (is_close d) (since j' (deferred p j'))) = 1"
    unfolding ds(6) using closes_once [OF ds(4)] ds(5) by blast
  with ds show ?thesis unfolding s by (auto simp: p_def)
qed

theorem cleanup_on_exit_witness:
  "wf joe0 \<and> \<not> closed_closed joe0 \<and>
   admissible_run world0 [Message 5 [''a''], Done] joe0 \<and>
   run world0 [Message 5 [''a''], Done] joe0
     = Return (state_of (run world0 [Message 5 [''a''], Done] joe0)) \<and>
   closed_closed (start world0 [Message 5 [''a''], Done] joe0) \<and>
   \<not> ticks (gc (start world0 [Message 5 [''a''], Done] joe0)) \<and>
   loop (start world0 [Message 5 [''a''], Done] joe0) = Exited \<and>
   since (state_of (run world0 [Message 5 [''a''], Done] joe0))
     (start world0 [Message 5 [''a''], Done] joe0) = [StopGC, ChanClose 1, CloseClosed] \<and>
   admissible_run world2 [Message 5 [''a'', ''b'']] joe0 \<and>
   run world2 [Message 5 [''a'', ''b'']] joe0
     = Panics (state_of (run world2 [Message 5 [''a'', ''b'']] joe0)) \<and>
   handles (state_of (run world2 [Message 5 [''a'', ''b'']] joe0)) = {1, 2} \<and>
   loop (start world2 [Message 5 [''a'', ''b'']] joe0) = Crashed \<and>
   closed_closed (start world2 [Message 5 [''a'', ''b'']] joe0) \<and>
   closed (chans (start world2 [Message 5 [''a'', ''b'']] joe0) 1) \<and>
   closed (chans (start world2 [Message 5 [''a'', ''b'']] joe0) 2) \<and>
   length (filter (is_close 1) (since (state_of (run world2 [Message 5 [''a'', ''b'']] joe0))
     (start world2 [Message 5 [''a'', ''b'']] joe0))) = 1 \<and>
   length (filter (is_close 2) (since (state_of (run world2 [Message 5 [''a'', ''b'']] joe0))
     (start world2 [Message 5 [''a'', ''b'']] joe0))) = 1"
proof -
  let ?rs1 = "[Message 5 [''a''], Done]"
  let ?rs2 = "[Message 5 [''a'', ''b'']]"
  have h1: "wf joe0" by (simp add: wf_def handles_def joe0_def fresh_def)
  have h3: "\<not> closed_closed joe0" by (simp add: joe0_def)
  have r1: "run world0 ?rs1 joe0 = Return (state_of (run world0 ?rs1 joe0))"
    by (simp add: and_then_def publish_def subscribers_def joe0_def world0_def
        send_flush_def observe_def send_chan_def chan_send_def removeSubscriber_def close_chan_def
        chan_close_def Let_def)
  have a1: "admissible_run world0 ?rs1 joe0"
    by (simp add: and_then_def publish_def subscribers_def joe0_def world0_def
        send_flush_def observe_def send_chan_def chan_send_def removeSubscriber_def close_chan_def
        chan_close_def Let_def)
  have s1: "since (state_of (run world0 ?rs1 joe0)) (start world0 ?rs1 joe0)
      = [StopGC, ChanClose 1, CloseClosed]"
    by (simp add: start_def and_then_def publish_def subscribers_def joe0_def world0_def
        send_flush_def observe_def send_chan_def chan_send_def removeSubscriber_def close_chan_def
        chan_close_def deferred_def closeSubscribers_def state_of_def went_on_def since_def Let_def)
  have r2: "run world2 ?rs2 joe0 = Panics (state_of (run world2 ?rs2 joe0))"
    by (simp add: and_then_def publish_def world2_def world0_def)
  have a2: "admissible_run world2 ?rs2 joe0"
    by (simp add: publish_def world2_def world0_def)
  have hs: "handles (state_of (run world2 ?rs2 joe0)) = {1, 2}"
    by (auto simp: and_then_def publish_def world2_def world0_def handles_def joe0_def)
  note T1 = cleanup_on_exit [OF h1 a1 h3 disjI1 [OF r1]]
  have c1: "closed_closed (start world0 ?rs1 joe0)" "\<not> ticks (gc (start world0 ?rs1 joe0))"
    using T1 by blast+
  from T1 have "loop (start world0 ?rs1 joe0) =
      (if run world0 ?rs1 joe0 = Return (state_of (run world0 ?rs1 joe0)) then Exited else Crashed)"
    by blast
  then have l1: "loop (start world0 ?rs1 joe0) = Exited"
    by (simp only: r1 [symmetric] if_True simp_thms)
  note T2 = cleanup_on_exit [OF h1 a2 h3 disjI2 [OF r2]]
  have ne: "run world2 ?rs2 joe0 \<noteq> Return (state_of (run world2 ?rs2 joe0))"
    by (subst r2) simp
  have c2: "closed_closed (start world2 ?rs2 joe0)" using T2 by blast
  from T2 have "loop (start world2 ?rs2 joe0) =
      (if run world2 ?rs2 joe0 = Return (state_of (run world2 ?rs2 joe0)) then Exited else Crashed)"
    by blast
  then have l2: "loop (start world2 ?rs2 joe0) = Crashed"
    by (simp only: ne if_False simp_thms)
  have in1: "1 \<in> handles (state_of (run world2 ?rs2 joe0))"
    and in2: "2 \<in> handles (state_of (run world2 ?rs2 joe0))"
    unfolding hs by simp_all
  from T2 have all: "\<forall>d \<in> handles (state_of (run world2 ?rs2 joe0)).
      closed (chans (start world2 ?rs2 joe0) d) \<and>
      length (filter (is_close d) (since (state_of (run world2 ?rs2 joe0)) (start world2 ?rs2 joe0))) = 1"
    by blast
  from all in1 have d1: "closed (chans (start world2 ?rs2 joe0) 1)"
    "length (filter (is_close 1) (since (state_of (run world2 ?rs2 joe0)) (start world2 ?rs2 joe0))) = 1"
    by blast+
  from all in2 have d2: "closed (chans (start world2 ?rs2 joe0) 2)"
    "length (filter (is_close 2) (since (state_of (run world2 ?rs2 joe0)) (start world2 ?rs2 joe0))) = 1"
    by blast+
  from h1 h3 a1 r1 c1 l1 s1 a2 r2 hs l2 c2 d1 d2 show ?thesis by blast
qed

section \<open>Calls of the facade\<close>

lemma deferred_signals:
  "done_closed (deferred p j) = done_closed j" "initDone (deferred p j) = initDone j"
  "closed_closed (deferred p j)" "loop (deferred p j) \<noteq> Running"
proof -
  let ?j1 = "observe StopGC (j\<lparr>gc := stop (gc j)\<rparr>)"
  let ?j2 = "state_of (closeSubscribers ?j1)"
  have f: "frame ?j1 ?j2" by (rule frame_closeSubscribers)
  then have "done_closed ?j2 = done_closed j" "initDone ?j2 = initDone j" by (simp_all add: frame_def)
  then show "done_closed (deferred p j) = done_closed j" "initDone (deferred p j) = initDone j"
    by (simp_all add: deferred_def Let_def)
  show "closed_closed (deferred p j)" by (simp add: deferred_def Let_def)
  show "loop (deferred p j) \<noteq> Running" by (simp add: deferred_def Let_def)
qed

lemma handle_Done:
  "done_closed (handle w Done j) = done_closed j" "initDone (handle w Done j) = initDone j"
  "loop (handle w Done j) \<noteq> Running" "loop j = Running \<Longrightarrow> closed_closed (handle w Done j)"
  by (simp_all add: handle_def start_def and_then_def deferred_signals)

lemma init_idem: "initDone j \<Longrightarrow> init w j = j"
  by (simp add: init_def)

lemma initDone_init: "initDone (init w j)"
  by (simp add: init_def)

lemma after_Shutdown:
  "done_closed (snd (Shutdown w pick ctx j))" "initDone (snd (Shutdown w pick ctx j))"
  "loop (snd (Shutdown w pick ctx j)) \<noteq> Running \<or> fst (Shutdown w pick ctx j) = Returns (Some ErrProviderClosed)"
  by (auto simp: Shutdown_def Let_def handle_Done initDone_init)

text \<open>A request that \<^verbatim>\<open>Subscribe\<close> sends is admissible: its channel was just made.\<close>

lemma handles_init: "handles (init w j) \<subseteq> handles j"
  by (simp add: init_def handles_def)

lemma Subscribe_call_admissible:
  assumes "handles j \<subseteq> {..< made (init w j)}" and "Subscribe_call w sub j = (s, j')"
  shows "at s = Submitting \<and> admissible (Subscribe \<lparr>done_chan = chan_of s, request = asked s\<rparr>) j'"
proof -
  let ?j1 = "init w j"
  from assms(2) have s: "s = \<lparr>at = Submitting, chan_of = made ?j1, asked = sub\<rparr>"
    and j': "j' = ?j1\<lparr>made := made ?j1 + 1, chans := (chans ?j1)(made ?j1 := \<lparr>buf = [], closed = False\<rparr>)\<rparr>"
    by (simp_all add: Subscribe_call_def Let_def)
  have "handles j' = handles ?j1" unfolding j' by (simp add: handles_def)
  with handles_init [of w j] assms(1) have "made ?j1 \<notin> handles j'" by auto
  moreover have "fresh (chans j' (made ?j1))" unfolding j' by (simp add: fresh_def)
  ultimately show ?thesis unfolding s by simp
qed

text \<open>
  C5.  \<^verbatim>\<open>Publish\<close> with no topics returns \<^verbatim>\<open>ErrNoTopic\<close> and leaves the state as it
  was, for every message and every state: it does not even run \<^verbatim>\<open>init\<close>, sends nothing
  to the loop, and nothing is added to the trace, so \<^verbatim>\<open>Put\<close> is not called.
\<close>

theorem publish_no_topic:
  "Publish w pick msg [] j = (Returns (Some ErrNoTopic), j) \<and>
   filter is_put (since j (snd (Publish w pick msg [] j))) = []"
  by (simp add: Publish_def since_def)

theorem publish_no_topic_witness:
  "Publish world0 True 5 [] joe_new = (Returns (Some ErrNoTopic), joe_new) \<and>
   filter is_put (since joe_new (snd (Publish world0 True 5 [] joe_new))) = [] \<and>
   (\<exists>j'. Publish world0 True 5 [''a''] joe_new = (Returns None, j') \<and>
      filter is_put (since joe_new j') = [CallPut 5 [''a''] (Some 6)])"
proof -
  have "\<exists>j'. Publish world0 True 5 [''a''] joe_new = (Returns None, j') \<and>
      filter is_put (since joe_new j') = [CallPut 5 [''a''] (Some 6)]"
    by (simp add: Publish_def init_def handle_def start_def and_then_def publish_def
        subscribers_def joe_new_def world0_def observe_def since_def Let_def)
  with publish_no_topic [of world0 True 5 joe_new] show ?thesis by blast
qed

text \<open>
  C10.  After a call of \<^verbatim>\<open>Shutdown\<close>, however it went, \<^verbatim>\<open>j.done\<close> is closed.
  \<^verbatim>\<open>Publish\<close> to a list of topics that is not empty then gets \<^verbatim>\<open>ErrProviderClosed\<close>
  (its \<^verbatim>\<open>select\<close> taking the case of \<^verbatim>\<open>j.done\<close>), and \<^verbatim>\<open>Publish\<close> with no topics
  gets \<^verbatim>\<open>ErrNoTopic\<close> in that same state, whatever the message: the length of the list is
  checked first.
\<close>

theorem publish_no_topic_after_shutdown:
  "done_closed (snd (Shutdown w pick ctx j)) \<and>
   Publish w pick' msg [] (snd (Shutdown w pick ctx j))
     = (Returns (Some ErrNoTopic), snd (Shutdown w pick ctx j)) \<and>
   fst (Publish w True msg (t # ts) (snd (Shutdown w pick ctx j)))
     = Returns (Some ErrProviderClosed)"
proof -
  let ?j = "snd (Shutdown w pick ctx j)"
  have d: "done_closed ?j" "initDone ?j" by (rule after_Shutdown)+
  then have "fst (Publish w True msg (t # ts) ?j) = Returns (Some ErrProviderClosed)"
    by (simp add: Publish_def init_idem Let_def)
  with d(1) show ?thesis by (simp add: Publish_def)
qed

theorem publish_no_topic_after_shutdown_witness:
  "fst (Shutdown world0 False None joe0) = Returns None \<and>
   done_closed (snd (Shutdown world0 False None joe0)) \<and>
   Publish world0 False 5 [] (snd (Shutdown world0 False None joe0))
     = (Returns (Some ErrNoTopic), snd (Shutdown world0 False None joe0)) \<and>
   fst (Publish world0 True 5 [''a''] (snd (Shutdown world0 False None joe0)))
     = Returns (Some ErrProviderClosed)"
proof -
  have "fst (Shutdown world0 False None joe0) = Returns None"
    by (simp add: Shutdown_def init_def joe0_def Let_def handle_Done)
  with publish_no_topic_after_shutdown [of world0 False None joe0 False 5 "''a''" "[]"]
  show ?thesis by blast
qed

text \<open>
  C3.  Two calls of \<^verbatim>\<open>Shutdown\<close> one after the other, the first on a provider that was
  not shut down before, whose loop is in its \<^verbatim>\<open>select\<close>, with a context that is not done
  before the loop has closed \<^verbatim>\<open>j.closed\<close>: the first returns \<^verbatim>\<open>nil\<close>.  The second,
  whatever its context, returns \<^verbatim>\<open>ErrProviderClosed\<close>: it returns, so it neither blocks
  nor panics, and it changes nothing.
\<close>

theorem shutdown_twice:
  assumes "\<not> done_closed (init w j)" and "loop (init w j) = Running" and "ctx = None \<or> \<not> pick"
  shows "fst (Shutdown w pick ctx j) = Returns None \<and>
         Shutdown w pick2 ctx2 (snd (Shutdown w pick ctx j))
           = (Returns (Some ErrProviderClosed), snd (Shutdown w pick ctx j))"
proof -
  let ?j = "snd (Shutdown w pick ctx j)"
  have "closed_closed (handle w Done ((init w j)\<lparr>done_closed := True\<rparr>))"
    using assms(2) by (simp add: handle_Done)
  then have "fst (Shutdown w pick ctx j) = Returns None"
    using assms by (auto simp: Shutdown_def Let_def)
  moreover have "done_closed ?j" "initDone ?j" by (rule after_Shutdown)+
  then have "Shutdown w pick2 ctx2 ?j = (Returns (Some ErrProviderClosed), ?j)"
    by (simp add: Shutdown_def init_idem Let_def)
  ultimately show ?thesis by blast
qed

theorem shutdown_twice_witness:
  "\<not> done_closed (init world0 joe_new) \<and> loop (init world0 joe_new) = Running \<and>
   fst (Shutdown world0 True None joe_new) = Returns None \<and>
   Shutdown world0 True (Some (OtherErr ''context deadline exceeded''))
       (snd (Shutdown world0 True None joe_new))
     = (Returns (Some ErrProviderClosed), snd (Shutdown world0 True None joe_new))"
proof -
  have h1: "\<not> done_closed (init world0 joe_new)" by (simp add: init_def joe_new_def)
  have h2: "loop (init world0 joe_new) = Running" by (simp add: init_def joe_new_def)
  have h3: "None = (None :: err option) \<or> \<not> True" by simp
  from shutdown_twice [OF h1 h2 h3, of True "Some (OtherErr ''context deadline exceeded'')"] h1 h2
  show ?thesis by blast
qed

section \<open>The no-op replay provider as the source has it\<close>

text \<open>
  C2.  What the two methods of \<^verbatim>\<open>noopReplayProvider\<close> in \<^verbatim>\<open>replay_noop.go\<close> compute:
  \<^verbatim>\<open>Put\<close> takes a message, and no topics, and returns it; \<^verbatim>\<open>Replay\<close> returns the boolean
  \<^verbatim>\<open>true\<close>.  Neither has the type of the field of the same name in \<open>world\<close>, which is
  the type the interface \<^verbatim>\<open>ReplayProvider\<close> of \<^verbatim>\<open>joe.go\<close> gives them:
  \<^verbatim>\<open>Put(message *Message, topics []string) *Message\<close> and
  \<^verbatim>\<open>Replay(subscription Subscription) error\<close>.
\<close>

theorem noop_as_written:
  "noopReplayProvider_Put m = m \<and> noopReplayProvider_Replay sub = True"
  by (simp add: noopReplayProvider_Put_def noopReplayProvider_Replay_def)

end
